theory Spec2Isabelle
  imports Main
begin

section \<open>The 2048 game of \<^verbatim>\<open>main.py\<close>: data model\<close>

text \<open>
  The Python classes \<^verbatim>\<open>Board\<close> and \<^verbatim>\<open>Game\<close> become records. Only the fields that
  carry game logic are kept: the Tk widgets (\<^verbatim>\<open>master\<close>, \<^verbatim>\<open>game_area_frame\<close>, the label
  matrix \<^verbatim>\<open>Board.board\<close>) and the painting methods read the grid and never write a
  logic field. Python integers are unbounded, so cell values and scores are \<open>int\<close>;
  \<^verbatim>\<open>size\<close> only ever feeds \<^verbatim>\<open>range\<close>, so it is a \<open>nat\<close>. The field \<^verbatim>\<open>size\<close> is named
  \<open>bsize\<close> and the field \<^verbatim>\<open>end\<close> is named \<open>end_flag\<close>, since both words are taken in
  Isabelle.
\<close>

type_synonym grid = "int list list"

record board =
  bsize :: nat
  gridCell :: grid
  compress :: bool
  merge :: bool
  moved :: bool
  score :: int

record game =
  board :: board
  end_flag :: bool
  won :: bool
  move_count :: int
  prev_grid :: "grid option"
  prev_score :: int
  best_score :: int
  target :: int

text \<open>
  \<^verbatim>\<open>Board.__init__\<close>: an all-zero square grid, the three flags cleared, score zero.
\<close>

definition Board_init :: "nat \<Rightarrow> board" where
  "Board_init n =
     \<lparr>bsize = n, gridCell = replicate n (replicate n 0),
      compress = False, merge = False, moved = False, score = 0\<rparr>"

text \<open>
  \<^verbatim>\<open>Game.__init__\<close>. The best score comes from \<^verbatim>\<open>_load_best_score\<close>, which reads a file;
  the value read is a parameter of the model.
\<close>

definition Game_init :: "board \<Rightarrow> int \<Rightarrow> int \<Rightarrow> game" where
  "Game_init b best t =
     \<lparr>board = b, end_flag = False, won = False, move_count = 0,
      prev_grid = None, prev_score = 0, best_score = best, target = t\<rparr>"

text \<open>
  Every method below indexes \<^verbatim>\<open>gridCell[i][j]\<close> for \<open>i, j < size\<close>. Python raises
  \<^verbatim>\<open>IndexError\<close> when the grid is not a \<open>size \<times> size\<close> matrix, whereas \<open>xs ! i\<close> is
  unspecified there. The shape is therefore stated as a predicate; the constructor
  establishes it, every operation keeps it, and the theorems about indexed code assume it.
\<close>

definition wf_grid :: "nat \<Rightarrow> grid \<Rightarrow> bool" where
  "wf_grid n g \<longleftrightarrow> length g = n \<and> list_all (\<lambda>row. length row = n) g"

definition wf_board :: "board \<Rightarrow> bool" where
  "wf_board b \<longleftrightarrow> wf_grid (bsize b) (gridCell b)"

section \<open>Grid engine\<close>

subsection \<open>reverse\<close>

text \<open>
  The inner \<^verbatim>\<open>while i < j\<close> loop of \<^verbatim>\<open>Board.reverse\<close> swaps the cells \<open>i\<close> and \<open>j\<close> of one
  row and moves both indices inwards. The tuple assignment reads both cells before it
  writes either.
\<close>

function reverse_row :: "int list \<Rightarrow> nat \<Rightarrow> nat \<Rightarrow> int list" where
  "reverse_row row i j =
     (if i < j then reverse_row (row[i := row ! j, j := row ! i]) (i + 1) (j - 1)
      else row)"
  by pat_completeness auto
termination
  by (relation "measure (\<lambda>(row, i, j). j - i)") auto

declare reverse_row.simps [simp del]

text \<open>
  The outer loop runs over the row indices and rewrites row \<open>ind\<close> in place. The rows of
  a grid are distinct list objects (the constructor, \<^verbatim>\<open>transpose\<close>, \<^verbatim>\<open>compressGrid\<close> and
  \<^verbatim>\<open>undo\<close> all build fresh rows), so mutating one row is \<open>g[ind := \<dots>]\<close>.
\<close>

definition reverse :: "board \<Rightarrow> board" where
  "reverse b =
     b\<lparr>gridCell :=
         fold (\<lambda>ind g. g[ind := reverse_row (g ! ind) 0 (bsize b - 1)])
              [0..<bsize b] (gridCell b)\<rparr>"

subsection \<open>transpose\<close>

text \<open>
  \<^verbatim>\<open>zip(*rows)\<close> yields the columns up to the length of the shortest row, and nothing
  for no rows at all.
\<close>

definition zip_star :: "'a list list \<Rightarrow> 'a list list" where
  "zip_star g =
     (if g = [] then []
      else map (\<lambda>j. map (\<lambda>row. row ! j) g) [0..<Min (set (map length g))])"

definition transpose_grid :: "board \<Rightarrow> board" where
  "transpose_grid b = b\<lparr>gridCell := zip_star (gridCell b)\<rparr>"

subsection \<open>compressGrid\<close>

text \<open>
  One step of the inner loop of \<^verbatim>\<open>compressGrid\<close> on row \<open>i\<close>: the state is the row
  \<^verbatim>\<open>temp[i]\<close> being filled, the counter \<^verbatim>\<open>cnt\<close> and the flag \<^verbatim>\<open>self.compress\<close>.
\<close>

definition compress_step :: "int list \<Rightarrow> nat \<Rightarrow> int list \<times> nat \<times> bool \<Rightarrow> int list \<times> nat \<times> bool" where
  "compress_step row j = (\<lambda>(t, cnt, c).
     if row ! j \<noteq> 0 then (t[cnt := row ! j], cnt + 1, (if cnt \<noteq> j then True else c))
     else (t, cnt, c))"

definition compress_row :: "nat \<Rightarrow> int list \<Rightarrow> int list \<Rightarrow> bool \<Rightarrow> int list \<times> bool" where
  "compress_row n row t c =
     (case fold (compress_step row) [0..<n] (t, 0, c) of (t', cnt, c') \<Rightarrow> (t', c'))"

text \<open>
  The outer loop carries \<^verbatim>\<open>temp\<close> and the flag; the grid itself is only read until the
  final assignment \<^verbatim>\<open>self.gridCell = temp\<close>.
\<close>

definition compress_rows :: "nat \<Rightarrow> grid \<Rightarrow> nat \<Rightarrow> grid \<times> bool \<Rightarrow> grid \<times> bool" where
  "compress_rows n g i = (\<lambda>(temp, c).
     case compress_row n (g ! i) (temp ! i) c of (t', c') \<Rightarrow> (temp[i := t'], c'))"

definition compressGrid :: "board \<Rightarrow> board" where
  "compressGrid b =
     (case fold (compress_rows (bsize b) (gridCell b)) [0..<bsize b]
             (replicate (bsize b) (replicate (bsize b) 0), False)
      of (temp, c) \<Rightarrow> b\<lparr>gridCell := temp, compress := c\<rparr>)"

subsection \<open>mergeGrid\<close>

text \<open>
  One step of the inner loop of \<^verbatim>\<open>mergeGrid\<close> on one row: the state is the row, the
  score and the flag \<^verbatim>\<open>self.merge\<close>. The score is increased by the cell as read back after
  the doubling.
\<close>

definition merge_step :: "nat \<Rightarrow> int list \<times> int \<times> bool \<Rightarrow> int list \<times> int \<times> bool" where
  "merge_step j = (\<lambda>(row, s, m).
     if row ! j = row ! (j + 1) \<and> row ! j \<noteq> 0 then
       (let row1 = row[j := row ! j * 2];
            row2 = row1[j + 1 := 0]
        in (row2, s + row2 ! j, True))
     else (row, s, m))"

definition merge_rows :: "nat \<Rightarrow> board \<Rightarrow> board" where
  "merge_rows i b =
     (case fold merge_step [0..<bsize b - 1] (gridCell b ! i, score b, merge b)
      of (row, s, m) \<Rightarrow> b\<lparr>gridCell := (gridCell b)[i := row], score := s, merge := m\<rparr>)"

definition mergeGrid :: "board \<Rightarrow> board" where
  "mergeGrid b = fold merge_rows [0..<bsize b] (b\<lparr>merge := False\<rparr>)"

subsection \<open>random_cell\<close>

text \<open>
  The two random draws of \<^verbatim>\<open>random_cell\<close> are arguments: a number that selects the
  element \<^verbatim>\<open>random.choice\<close> returns (taken modulo the number of candidates, so that every
  number selects one and every candidate can be selected), and whether
  \<^verbatim>\<open>random.random() < 0.1\<close> came out true. The candidate list is built row by row, column
  by column, as the nested loops do.
\<close>

type_synonym draw = "nat \<times> bool"

definition empty_cells :: "board \<Rightarrow> (nat \<times> nat) list" where
  "empty_cells b =
     filter (\<lambda>(i, j). gridCell b ! i ! j = 0) (List.product [0..<bsize b] [0..<bsize b])"

definition random_cell :: "draw \<Rightarrow> board \<Rightarrow> bool \<times> board" where
  "random_cell d b =
     (let cells = empty_cells b in
      if cells = [] then (False, b)
      else (case cells ! (fst d mod length cells) of (i, j) \<Rightarrow>
              (True, b\<lparr>gridCell :=
                 (gridCell b)[i := (gridCell b ! i)[j := (if snd d then 4 else 2)]]\<rparr>)))"

subsection \<open>can_merge\<close>

text \<open>
  Each of the two nested loops of \<^verbatim>\<open>can_merge\<close> returns \<^verbatim>\<open>True\<close> at the first pair of
  equal neighbours it meets: a search, written with \<open>list_ex\<close>. The comparison has no
  test for zero.
\<close>

definition can_merge :: "board \<Rightarrow> bool" where
  "can_merge b =
     (if list_ex (\<lambda>i. list_ex (\<lambda>j. gridCell b ! i ! j = gridCell b ! i ! (j + 1))
                    [0..<bsize b - 1]) [0..<bsize b] then True
      else if list_ex (\<lambda>i. list_ex (\<lambda>j. gridCell b ! (i + 1) ! j = gridCell b ! i ! j)
                    [0..<bsize b]) [0..<bsize b - 1] then True
      else False)"

section \<open>Game controller\<close>

text \<open>
  \<^verbatim>\<open>Game.start\<close> and \<^verbatim>\<open>Game.reset\<close> spawn two cells and ignore what \<^verbatim>\<open>random_cell\<close>
  returns. \<^verbatim>\<open>paintGrid\<close> only redraws.
\<close>

definition start :: "draw \<Rightarrow> draw \<Rightarrow> game \<Rightarrow> game" where
  "start d1 d2 g =
     (let g1 = g\<lparr>board := snd (random_cell d1 (board g))\<rparr>
      in g1\<lparr>board := snd (random_cell d2 (board g1))\<rparr>)"

definition reset :: "draw \<Rightarrow> draw \<Rightarrow> game \<Rightarrow> game" where
  "reset d1 d2 g =
     (let n = bsize (board g);
          g1 = g\<lparr>board := (board g)\<lparr>gridCell := replicate n (replicate n 0), score := 0\<rparr>,
                 move_count := 0, end_flag := False, won := False,
                 prev_grid := None, prev_score := 0\<rparr>;
          g2 = g1\<lparr>board := snd (random_cell d1 (board g1))\<rparr>
      in g2\<lparr>board := snd (random_cell d2 (board g2))\<rparr>)"

definition set_target :: "int \<Rightarrow> game \<Rightarrow> game" where
  "set_target t g = g\<lparr>target := t\<rparr>"

definition can_move :: "game \<Rightarrow> bool" where
  "can_move g =
     (if list_ex (\<lambda>i. list_ex (\<lambda>j. gridCell (board g) ! i ! j = 0) [0..<bsize (board g)])
           [0..<bsize (board g)] then True
      else can_merge (board g))"

text \<open>
  \<^verbatim>\<open>save_undo\<close> copies every row (\<^verbatim>\<open>row[:]\<close>), so the snapshot shares no row with the
  grid and later in-place changes of the grid do not reach it; \<^verbatim>\<open>undo\<close> copies back.
\<close>

definition save_undo :: "game \<Rightarrow> game" where
  "save_undo g =
     g\<lparr>prev_grid := Some (map (\<lambda>row. row) (gridCell (board g))),
       prev_score := score (board g)\<rparr>"

definition undo :: "game \<Rightarrow> game" where
  "undo g =
     (case prev_grid g of
        None \<Rightarrow> g
      | Some pg \<Rightarrow>
          g\<lparr>board := (board g)\<lparr>gridCell := map (\<lambda>row. row) pg, score := prev_score g\<rparr>,
            prev_grid := None, prev_score := 0\<rparr>)"

text \<open>
  What the four move methods share after their transforms: \<^verbatim>\<open>if moved:\<close> count the
  move and spawn a cell; then return \<^verbatim>\<open>moved\<close>.
\<close>

definition finish_move :: "draw \<Rightarrow> bool \<Rightarrow> game \<Rightarrow> bool \<times> game" where
  "finish_move d mv g =
     (if mv then
        (let g1 = g\<lparr>move_count := move_count g + 1\<rparr>
         in (mv, g1\<lparr>board := snd (random_cell d (board g1))\<rparr>))
      else (mv, g))"

definition move_left :: "draw \<Rightarrow> game \<Rightarrow> bool \<times> game" where
  "move_left d g =
     (if end_flag g \<or> won g then (False, g)
      else
        (let g0 = save_undo g;
             b1 = compressGrid (board g0);
             b2 = mergeGrid b1;
             mv = (compress b2 \<or> merge b2);
             b3 = compressGrid b2
         in finish_move d mv (g0\<lparr>board := b3\<rparr>)))"

definition move_right :: "draw \<Rightarrow> game \<Rightarrow> bool \<times> game" where
  "move_right d g =
     (if end_flag g \<or> won g then (False, g)
      else
        (let g0 = save_undo g;
             b0 = reverse (board g0);
             b1 = compressGrid b0;
             b2 = mergeGrid b1;
             mv = (compress b2 \<or> merge b2);
             b3 = compressGrid b2;
             b4 = reverse b3
         in finish_move d mv (g0\<lparr>board := b4\<rparr>)))"

definition move_up :: "draw \<Rightarrow> game \<Rightarrow> bool \<times> game" where
  "move_up d g =
     (if end_flag g \<or> won g then (False, g)
      else
        (let g0 = save_undo g;
             b0 = transpose_grid (board g0);
             b1 = compressGrid b0;
             b2 = mergeGrid b1;
             mv = (compress b2 \<or> merge b2);
             b3 = compressGrid b2;
             b4 = transpose_grid b3
         in finish_move d mv (g0\<lparr>board := b4\<rparr>)))"

definition move_down :: "draw \<Rightarrow> game \<Rightarrow> bool \<times> game" where
  "move_down d g =
     (if end_flag g \<or> won g then (False, g)
      else
        (let g0 = save_undo g;
             b0 = reverse (transpose_grid (board g0));
             b1 = compressGrid b0;
             b2 = mergeGrid b1;
             mv = (compress b2 \<or> merge b2);
             b3 = compressGrid b2;
             b4 = transpose_grid (reverse b3)
         in finish_move d mv (g0\<lparr>board := b4\<rparr>)))"

text \<open>
  \<^verbatim>\<open>after_move_updates\<close>: raise the best score (the write to the file has no effect on
  the state), then look for the target tile and return at the first one; only when none
  is found test for the end of the game. The message boxes only display.
\<close>

definition after_move_updates :: "game \<Rightarrow> game" where
  "after_move_updates g =
     (let g1 = (if score (board g) > best_score g then g\<lparr>best_score := score (board g)\<rparr>
                else g)
      in if list_ex (\<lambda>row. list_ex (\<lambda>val. val = target g1) row) (gridCell (board g1))
         then g1\<lparr>won := True\<rparr>
         else if \<not> can_move g1 then g1\<lparr>end_flag := True\<rparr>
         else g1)"

section \<open>Application handlers\<close>

text \<open>
  \<^verbatim>\<open>Enhanced2048App\<close> holds the same board object as its game, so its handlers are
  functions on the game. \<^verbatim>\<open>_post_move_updates\<close> copies values to the widgets and raises
  the best score once more.
\<close>

definition post_move_updates :: "game \<Rightarrow> game" where
  "post_move_updates g =
     (if score (board g) > best_score g then g\<lparr>best_score := score (board g)\<rparr> else g)"

datatype direction = Key_Left | Key_Right | Key_Up | Key_Down

text \<open>The dispatch of \<^verbatim>\<open>_key_handler\<close> to the four methods of the game.\<close>

fun move :: "direction \<Rightarrow> draw \<Rightarrow> game \<Rightarrow> bool \<times> game" where
  "move Key_Left d g = move_left d g"
| "move Key_Right d g = move_right d g"
| "move Key_Up d g = move_up d g"
| "move Key_Down d g = move_down d g"

text \<open>
  The four wrappers \<^verbatim>\<open>Enhanced2048App.move_left\<close>, \<dots> differ only in the method of the
  game they call: \<^verbatim>\<open>after_move_updates\<close> runs only \<^verbatim>\<open>if moved\<close>.
\<close>

definition app_move :: "direction \<Rightarrow> draw \<Rightarrow> game \<Rightarrow> game" where
  "app_move dir d g =
     (case move dir d g of (mv, g1) \<Rightarrow>
        post_move_updates (if mv then after_move_updates g1 else g1))"

definition app_undo :: "game \<Rightarrow> game" where
  "app_undo g = undo g"

text \<open>
  \<^verbatim>\<open>new_game\<close> resets when the dialog is answered yes; \<^verbatim>\<open>reset_best\<close> likewise zeroes the
  best score; \<^verbatim>\<open>set_target\<close> changes the target when the dialog returns a non-zero number.
\<close>

definition new_game :: "bool \<Rightarrow> draw \<Rightarrow> draw \<Rightarrow> game \<Rightarrow> game" where
  "new_game yes d1 d2 g = (if yes then reset d1 d2 g else g)"

definition reset_best :: "bool \<Rightarrow> game \<Rightarrow> game" where
  "reset_best yes g = (if yes then g\<lparr>best_score := 0\<rparr> else g)"

definition app_set_target :: "int option \<Rightarrow> game \<Rightarrow> game" where
  "app_set_target t g =
     (case t of None \<Rightarrow> g | Some v \<Rightarrow> if v \<noteq> 0 then set_target v g else g)"

text \<open>
  \<^verbatim>\<open>Enhanced2048App.__init__\<close>: a board of size 4, a game with target 2048 and the
  best score read from the file, then \<^verbatim>\<open>start\<close>.
\<close>

definition app_init :: "int \<Rightarrow> draw \<Rightarrow> draw \<Rightarrow> game" where
  "app_init best d1 d2 = start d1 d2 (Game_init (Board_init 4) best 2048)"

text \<open>The states the application can reach by its handlers.\<close>

inductive reachable :: "game \<Rightarrow> bool" where
  r_init: "reachable (app_init best d1 d2)"
| r_move: "reachable g \<Longrightarrow> reachable (app_move dir d g)"
| r_undo: "reachable g \<Longrightarrow> reachable (app_undo g)"
| r_new: "reachable g \<Longrightarrow> reachable (new_game yes d1 d2 g)"
| r_best: "reachable g \<Longrightarrow> reachable (reset_best yes g)"
| r_target: "reachable g \<Longrightarrow> reachable (app_set_target t g)"

section \<open>Notions used to state the properties\<close>

text \<open>
  The directional transform of a move, as the four methods compose it: turn the grid so
  that the move becomes a move to the left, compress, merge, compress again, turn back.
  \<open>changed\<close> is the value of \<^verbatim>\<open>moved\<close>, read between the merge and the second compress.
\<close>

fun orient :: "direction \<Rightarrow> board \<Rightarrow> board" where
  "orient Key_Left b = b"
| "orient Key_Right b = reverse b"
| "orient Key_Up b = transpose_grid b"
| "orient Key_Down b = reverse (transpose_grid b)"

fun unorient :: "direction \<Rightarrow> board \<Rightarrow> board" where
  "unorient Key_Left b = b"
| "unorient Key_Right b = reverse b"
| "unorient Key_Up b = transpose_grid b"
| "unorient Key_Down b = transpose_grid (reverse b)"

definition transform :: "direction \<Rightarrow> board \<Rightarrow> board" where
  "transform dir b = unorient dir (compressGrid (mergeGrid (compressGrid (orient dir b))))"

definition changed :: "direction \<Rightarrow> board \<Rightarrow> bool" where
  "changed dir b =
     (let b2 = mergeGrid (compressGrid (orient dir b)) in compress b2 \<or> merge b2)"

text \<open>
  The merge pass on one row as the specification words it: scanning from the left, two
  equal non-zero neighbours become the doubled value and a zero, and the scan goes on
  behind the pair. \<open>merge_gain\<close> is the score the pass earns, \<open>merge_any\<close> whether it
  merged at all.
\<close>

fun merge_once :: "int list \<Rightarrow> int list" where
  "merge_once (x # y # rest) =
     (if x = y \<and> x \<noteq> 0 then 2 * x # 0 # merge_once rest else x # merge_once (y # rest))"
| "merge_once row = row"

fun merge_gain :: "int list \<Rightarrow> int" where
  "merge_gain (x # y # rest) =
     (if x = y \<and> x \<noteq> 0 then 2 * x + merge_gain rest else merge_gain (y # rest))"
| "merge_gain row = 0"

fun merge_any :: "int list \<Rightarrow> bool" where
  "merge_any (x # y # rest) = (if x = y \<and> x \<noteq> 0 then True else merge_any (y # rest))"
| "merge_any row = False"

text \<open>
  The compress of one row as the specification words it: the non-zero values in their
  order, then zeros up to the length of the row.
\<close>

abbreviation nz :: "int list \<Rightarrow> int list" where
  "nz row \<equiv> filter (\<lambda>v. v \<noteq> 0) row"

definition slide_row :: "int list \<Rightarrow> int list" where
  "slide_row row = nz row @ replicate (length row - length (nz row)) 0"

text \<open>A row in which some empty cell lies to the left of a tile: a tile has room to slide.\<close>

fun has_gap :: "int list \<Rightarrow> bool" where
  "has_gap [] = False"
| "has_gap (x # xs) = (if x = 0 then list_ex (\<lambda>y. y \<noteq> 0) xs else has_gap xs)"

text \<open>A power of two that is at least 2, decided by halving.\<close>

function pow2 :: "int \<Rightarrow> bool" where
  "pow2 v = (if v < 2 then False else if v = 2 then True else even v \<and> pow2 (v div 2))"
  by pat_completeness auto
termination
  by (relation "measure nat") auto

declare pow2.simps [simp del]

definition tile_ok :: "int \<Rightarrow> bool" where
  "tile_ok v \<longleftrightarrow> v = 0 \<or> pow2 v"

definition grid_all :: "(int \<Rightarrow> bool) \<Rightarrow> grid \<Rightarrow> bool" where
  "grid_all P g \<longleftrightarrow> list_all (list_all P) g"

text \<open>
  A property of cell values that the empty cell has and that doubling a tile keeps.
\<close>

definition tile_closed :: "(int \<Rightarrow> bool) \<Rightarrow> bool" where
  "tile_closed Q \<longleftrightarrow> Q 0 \<and> (\<forall>v. Q v \<longrightarrow> v \<noteq> 0 \<longrightarrow> Q (2 * v))"

text \<open>Two neighbours in a row or in a column that hold the same value.\<close>

definition equal_neighbours :: "nat \<Rightarrow> grid \<Rightarrow> bool" where
  "equal_neighbours n g \<longleftrightarrow>
     (\<exists>i<n. \<exists>j<n. Suc j < n \<and> g ! i ! j = g ! i ! Suc j) \<or>
     (\<exists>i<n. \<exists>j<n. Suc i < n \<and> g ! i ! j = g ! Suc i ! j)"

definition equal_nonzero_neighbours :: "nat \<Rightarrow> grid \<Rightarrow> bool" where
  "equal_nonzero_neighbours n g \<longleftrightarrow>
     (\<exists>i<n. \<exists>j<n. Suc j < n \<and> g ! i ! j = g ! i ! Suc j \<and> g ! i ! j \<noteq> 0) \<or>
     (\<exists>i<n. \<exists>j<n. Suc i < n \<and> g ! i ! j = g ! Suc i ! j \<and> g ! i ! j \<noteq> 0)"

definition grid_full :: "grid \<Rightarrow> bool" where
  "grid_full g \<longleftrightarrow> grid_all (\<lambda>v. v \<noteq> 0) g"

text \<open>
  The invariant of a game on a board of size \<open>n\<close>: the grid is square, every cell is
  empty or a power of two from 2 on, and so is the grid kept for undo.
\<close>

definition game_inv :: "nat \<Rightarrow> game \<Rightarrow> bool" where
  "game_inv n g \<longleftrightarrow>
     bsize (board g) = n \<and> wf_grid n (gridCell (board g)) \<and>
     grid_all tile_ok (gridCell (board g)) \<and>
     (case prev_grid g of None \<Rightarrow> True
      | Some pg \<Rightarrow> wf_grid n pg \<and> grid_all tile_ok pg)"

text \<open>Concrete states on which the theorems are exercised.\<close>

definition board_of :: "nat \<Rightarrow> grid \<Rightarrow> board" where
  "board_of n g = (Board_init n)\<lparr>gridCell := g\<rparr>"

definition game_of :: "nat \<Rightarrow> grid \<Rightarrow> game" where
  "game_of n g = Game_init (board_of n g) 0 2048"

definition grid_pairs :: grid where
  "grid_pairs = [[2, 2, 2, 2], [0, 0, 0, 0], [4, 0, 4, 8], [0, 2, 0, 0]]"

definition grid_stuck :: grid where
  "grid_stuck = [[2, 4, 2, 4], [4, 2, 4, 2], [2, 4, 2, 4], [4, 2, 4, 2]]"







section \<open>Loops as list functions\<close>

lemma wf_grid_iff: "wf_grid n g \<longleftrightarrow> length g = n \<and> (\<forall>row\<in>set g. length row = n)"
  by (simp add: wf_grid_def list_all_iff)

lemma fold_update_rows:
  "k \<le> length g \<Longrightarrow>
   fold (\<lambda>i g. g[i := f (g ! i)]) [0..<k] g = map f (take k g) @ drop k g"
proof (induction k)
  case 0
  then show ?case by simp
next
  case (Suc k)
  then have k: "k < length g" by simp
  have d: "drop k g = g ! k # drop (Suc k) g"
    using k by (simp add: Cons_nth_drop_Suc)
  show ?case
    using Suc k
    by (simp add: d take_Suc_conv_app_nth nth_append list_update_append)
qed

subsection \<open>reverse\<close>

lemma length_reverse_row [simp]: "length (reverse_row row i j) = length row"
  by (induction row i j rule: reverse_row.induct) (subst reverse_row.simps, simp)

lemma nth_reverse_row:
  "j < length row \<Longrightarrow> k < length row \<Longrightarrow>
   reverse_row row i j ! k = (if i \<le> k \<and> k \<le> j then row ! (i + j - k) else row ! k)"
proof (induction row i j rule: reverse_row.induct)
  case (1 row i j)
  show ?case
  proof (cases "i < j")
    case False
    then have "reverse_row row i j = row" by (subst reverse_row.simps) simp
    moreover have "i \<le> k \<and> k \<le> j \<Longrightarrow> i + j - k = k" using False by arith
    ultimately show ?thesis by auto
  next
    case True
    let ?r = "row[i := row ! j, j := row ! i]"
    have eq: "reverse_row row i j = reverse_row ?r (i + 1) (j - 1)"
      using True by (subst reverse_row.simps) simp
    have ih: "reverse_row ?r (i + 1) (j - 1) ! k =
        (if i + 1 \<le> k \<and> k \<le> j - 1 then ?r ! (i + 1 + (j - 1) - k) else ?r ! k)"
      using "1.IH" [OF True] "1.prems" by simp
    show ?thesis
      unfolding eq ih using True "1.prems"
      by (auto simp: nth_list_update)
  qed
qed

lemma reverse_row_rev: "reverse_row row 0 (length row - 1) = rev row"
proof (cases "row = []")
  case True
  then show ?thesis by (subst reverse_row.simps) simp
next
  case False
  show ?thesis
  proof (rule nth_equalityI)
    show "length (reverse_row row 0 (length row - 1)) = length (rev row)" by simp
  next
    fix k assume "k < length (reverse_row row 0 (length row - 1))"
    then have k: "k < length row" by simp
    then have "reverse_row row 0 (length row - 1) ! k = row ! (length row - 1 - k)"
      using False by (subst nth_reverse_row) auto
    then show "reverse_row row 0 (length row - 1) ! k = rev row ! k"
      using k by (simp add: rev_nth)
  qed
qed

lemma gridCell_reverse:
  assumes "wf_board b"
  shows "gridCell (reverse b) = map rev (gridCell b)"
proof -
  have len: "length (gridCell b) = bsize b" and rows: "\<forall>row\<in>set (gridCell b). length row = bsize b"
    using assms by (simp_all add: wf_board_def wf_grid_iff)
  have "fold (\<lambda>ind g. g[ind := reverse_row (g ! ind) 0 (bsize b - 1)]) [0..<bsize b] (gridCell b)
        = map (\<lambda>row. reverse_row row 0 (bsize b - 1)) (gridCell b)"
    using fold_update_rows [of "bsize b" "gridCell b" "\<lambda>row. reverse_row row 0 (bsize b - 1)"] len
    by simp
  also have "\<dots> = map rev (gridCell b)"
    using rows by (auto simp: reverse_row_rev [symmetric])
  finally show ?thesis by (simp add: reverse_def)
qed

subsection \<open>transpose\<close>

lemma zip_star_wf:
  assumes "wf_grid n g"
  shows "zip_star g = map (\<lambda>j. map (\<lambda>row. row ! j) g) [0..<n]"
proof (cases "g = []")
  case True
  then show ?thesis using assms by (simp add: zip_star_def wf_grid_iff)
next
  case False
  then obtain r where "r \<in> set g" by (cases g) auto
  then have "set (map length g) = {n}"
    using assms by (auto simp: wf_grid_iff)
  then show ?thesis using False by (simp add: zip_star_def)
qed

subsection \<open>compressGrid\<close>

lemma has_gap_snoc: "has_gap (xs @ [v]) = (has_gap xs \<or> (v \<noteq> 0 \<and> 0 \<in> set xs))"
  by (induction xs) (auto simp: list_ex_iff)

lemma filter_length_eq_iff: "length (nz xs) = length xs \<longleftrightarrow> 0 \<notin> set xs"
proof -
  have "length (nz xs) = length xs \<longleftrightarrow> nz xs = xs"
    using length_filter_le [of "\<lambda>v. v \<noteq> 0" xs]
    by (metis filter_id_conv length_filter_less less_irrefl)
  then show ?thesis by (auto simp: filter_id_conv)
qed

lemma compress_loop:
  assumes "length row = n" "k \<le> n"
  shows "fold (compress_step row) [0..<k] (replicate n 0, 0, c) =
           (nz (take k row) @ replicate (n - length (nz (take k row))) 0,
            length (nz (take k row)), c \<or> has_gap (take k row))"
  using assms(2)
proof (induction k)
  case 0
  then show ?case by simp
next
  case (Suc k)
  then have k: "k < length row" using assms(1) by simp
  let ?F = "nz (take k row)"
  have le: "length ?F \<le> k"
    using length_filter_le [of _ "take k row"] k by simp
  have tk: "take (Suc k) row = take k row @ [row ! k]"
    using k by (simp add: take_Suc_conv_app_nth)
  have cnt: "length ?F \<noteq> k \<longleftrightarrow> 0 \<in> set (take k row)"
    using filter_length_eq_iff [of "take k row"] k by simp
  show ?case
  proof (cases "row ! k = 0")
    case True
    then show ?thesis
      using Suc by (simp add: tk has_gap_snoc compress_step_def)
  next
    case False
    have "n - length ?F = Suc (n - Suc (length ?F))"
      using le k assms(1) by arith
    then have upd: "(?F @ replicate (n - length ?F) 0)[length ?F := row ! k]
        = ?F @ row ! k # replicate (n - Suc (length ?F)) 0"
      by (simp add: list_update_append)
    show ?thesis
      using Suc False cnt
      by (simp add: tk has_gap_snoc compress_step_def upd)
  qed
qed

lemma compress_row_eq:
  assumes "length row = n"
  shows "compress_row n row (replicate n 0) c = (slide_row row, c \<or> has_gap row)"
  using compress_loop [OF assms, of n c] assms
  by (simp add: compress_row_def slide_row_def)

lemma compress_rows_loop:
  assumes "wf_grid n g" "k \<le> n"
  shows "fold (compress_rows n g) [0..<k] (replicate n (replicate n 0), c) =
           (map slide_row (take k g) @ replicate (n - k) (replicate n 0),
            c \<or> list_ex has_gap (take k g))"
  using assms(2)
proof (induction k)
  case 0
  then show ?case by simp
next
  case (Suc k)
  then have k: "k < length g" and kn: "k < n" using assms(1) by (simp_all add: wf_grid_iff)
  have row: "length (g ! k) = n"
    using assms(1) k by (simp add: wf_grid_iff)
  have r: "n - k = Suc (n - Suc k)" using kn by arith
  have tk: "take (Suc k) g = take k g @ [g ! k]"
    using k by (simp add: take_Suc_conv_app_nth)
  have len: "length (map slide_row (take k g)) = k" using k by simp
  have nth: "(map slide_row (take k g) @ replicate (n - k) (replicate n 0)) ! k = replicate n 0"
    using len kn by (simp add: nth_append)
  have upd: "(map slide_row (take k g) @ replicate (n - k) (replicate n 0))[k := x]
       = map slide_row (take k g) @ x # replicate (n - Suc k) (replicate n 0)" for x
    using len by (simp add: list_update_append r)
  show ?case
    using Suc kn
    by (simp add: compress_rows_def nth upd compress_row_eq [OF row] tk)
qed

lemma compressGrid_eq:
  assumes "wf_board b"
  shows "compressGrid b =
           b\<lparr>gridCell := map slide_row (gridCell b),
             compress := list_ex has_gap (gridCell b)\<rparr>"
proof -
  have wf: "wf_grid (bsize b) (gridCell b)" using assms by (simp add: wf_board_def)
  then have len: "length (gridCell b) = bsize b" by (simp add: wf_grid_iff)
  show ?thesis
    using compress_rows_loop [OF wf order_refl, of False] len
    by (simp add: compressGrid_def)
qed

lemma length_slide_row [simp]: "length (slide_row row) = length row"
  using length_filter_le [of _ row] by (simp add: slide_row_def)

lemma slide_row_fixed: "slide_row row = row \<longleftrightarrow> \<not> has_gap row"
proof (induction row)
  case Nil
  then show ?case by (simp add: slide_row_def)
next
  case (Cons x xs)
  show ?case
  proof (cases "x = 0")
    case False
    have "slide_row (x # xs) = x # slide_row xs"
      using False length_filter_le [of "\<lambda>v. v \<noteq> 0" xs] by (simp add: slide_row_def Suc_diff_le)
    then show ?thesis using False Cons by simp
  next
    case True
    have "slide_row (0 # xs) = 0 # xs \<longleftrightarrow> nz xs = []"
    proof
      assume "slide_row (0 # xs) = 0 # xs"
      then have eq: "nz xs @ replicate (Suc (length xs) - length (nz xs)) 0 = 0 # xs"
        by (simp add: slide_row_def)
      show "nz xs = []"
      proof (cases "nz xs")
        case Nil then show ?thesis .
      next
        case (Cons y ys)
        then have "y \<in> set (nz xs)" by simp
        then have "y \<noteq> 0" by simp
        moreover have "y = 0" using eq Cons by simp
        ultimately show ?thesis by simp
      qed
    next
      assume e: "nz xs = []"
      then have "\<forall>v\<in>set xs. v = 0" by (simp add: filter_empty_conv)
      then have "xs = replicate (length xs) 0"
        by (simp add: replicate_length_same)
      then show "slide_row (0 # xs) = 0 # xs"
        using e by (simp add: slide_row_def)
    qed
    then show ?thesis using True by (auto simp: list_ex_iff filter_empty_conv)
  qed
qed

lemma has_gap_slide_row [simp]: "\<not> has_gap (slide_row row)"
proof -
  have z: "\<not> has_gap (replicate m 0)" for m
    by (cases m) (simp_all add: list_ex_iff)
  have "\<not> has_gap (xs @ replicate m 0)" if "0 \<notin> set xs" for xs :: "int list" and m
    using that z by (induction xs) auto
  then show ?thesis by (simp add: slide_row_def)
qed

lemma slide_row_idem: "slide_row (slide_row row) = slide_row row"
  by (simp add: slide_row_fixed)

lemma has_gap_zero: "has_gap row \<Longrightarrow> 0 \<in> set row"
  by (induction row) (auto split: if_splits)

subsection \<open>mergeGrid\<close>

lemma length_merge_once [simp]: "length (merge_once row) = length row"
  by (induction row rule: merge_once.induct) auto

lemma merge_step_hit:
  assumes "length pre = k" "x \<noteq> 0"
  shows "merge_step k (pre @ x # x # rest, s, m) = (pre @ 2 * x # 0 # rest, s + 2 * x, True)"
  using assms by (simp add: merge_step_def nth_append list_update_append Let_def)

lemma merge_step_miss:
  assumes "length pre = k" "\<not> (x = y \<and> x \<noteq> 0)"
  shows "merge_step k (pre @ x # y # rest, s, m) = (pre @ x # y # rest, s, m)"
  using assms by (auto simp: merge_step_def nth_append)

lemma merge_step_zero:
  assumes "length pre = k"
  shows "merge_step k (pre @ 0 # rest, s, m) = (pre @ 0 # rest, s, m)"
  using assms by (simp add: merge_step_def nth_append)

lemma merge_loop:
  "length pre = k \<Longrightarrow>
   fold merge_step [k..<k + length suf - 1] (pre @ suf, s, m) =
     (pre @ merge_once suf, s + merge_gain suf, m \<or> merge_any suf)"
proof (induction suf arbitrary: pre k s m rule: merge_once.induct)
  case (1 x y rest)
  define js1 where "js1 = [Suc k..<Suc k + length (y # rest) - 1]"
  define js2 where "js2 = [Suc (Suc k)..<Suc (Suc k) + length rest - 1]"
  have up: "[k..<k + length (x # y # rest) - 1] = k # js1"
    unfolding js1_def by (simp add: upt_conv_Cons del: upt_Suc)
  show ?case
  proof (cases "x = y \<and> x \<noteq> 0")
    case False
    have pre': "length (pre @ [x]) = Suc k" using "1.prems" by simp
    have ih: "fold merge_step js1 (pre @ x # y # rest, s, m) =
              (pre @ x # merge_once (y # rest), s + merge_gain (y # rest), m \<or> merge_any (y # rest))"
      using "1.IH"(2) [OF False pre', of s m] unfolding js1_def by simp
    have "fold merge_step (k # js1) (pre @ x # y # rest, s, m)
          = fold merge_step js1 (pre @ x # y # rest, s, m)"
      using merge_step_miss [OF "1.prems" False] by simp
    then show ?thesis
      unfolding up ih using False by auto
  next
    case True
    then have xy: "y = x" "x \<noteq> 0" by simp_all
    have pre': "length (pre @ [2 * x, 0]) = Suc (Suc k)" using "1.prems" by simp
    have ih: "fold merge_step js2 (pre @ 2 * x # 0 # rest, s + 2 * x, True) =
              (pre @ 2 * x # 0 # merge_once rest, s + 2 * x + merge_gain rest, True)"
      using "1.IH"(1) [OF True pre', of "s + 2 * x" True] unfolding js2_def by simp
    have z: "merge_step (Suc k) (pre @ 2 * x # 0 # rest, s', m') = (pre @ 2 * x # 0 # rest, s', m')"
      for s' m'
      using merge_step_zero [of "pre @ [2 * x]" "Suc k" rest s' m'] "1.prems" by simp
    have hit: "fold merge_step (k # js1) (pre @ x # y # rest, s, m)
          = fold merge_step js1 (pre @ 2 * x # 0 # rest, s + 2 * x, True)"
      using merge_step_hit [OF "1.prems" xy(2)] xy by simp
    have "fold merge_step js1 (pre @ 2 * x # 0 # rest, s + 2 * x, True) =
          (pre @ 2 * x # 0 # merge_once rest, s + 2 * x + merge_gain rest, True)"
    proof (cases rest)
      case Nil
      then show ?thesis by (simp add: js1_def)
    next
      case (Cons r rs)
      then have "js1 = Suc k # js2"
        unfolding js1_def js2_def by (simp add: upt_conv_Cons del: upt_Suc)
      then show ?thesis using z ih by simp
    qed
    then show ?thesis
      unfolding up hit using xy by simp
  qed
qed simp_all

lemma merge_row_eq:
  assumes "length row = n"
  shows "fold merge_step [0..<n - Suc 0] (row, s, m) =
           (merge_once row, s + merge_gain row, m \<or> merge_any row)"
  using merge_loop [of "[]" 0 row s m] assms by simp

lemma merge_rows_loop:
  assumes "wf_grid (bsize b) (gridCell b)" "k \<le> bsize b"
  shows "fold merge_rows [0..<k] b =
           b\<lparr>gridCell := map merge_once (take k (gridCell b)) @ drop k (gridCell b),
             score := score b + sum_list (map merge_gain (take k (gridCell b))),
             merge := merge b \<or> list_ex merge_any (take k (gridCell b))\<rparr>"
  using assms(2)
proof (induction k)
  case 0
  then show ?case by simp
next
  case (Suc k)
  let ?g = "gridCell b"
  from Suc have k: "k < length ?g" using assms(1) by (simp add: wf_grid_iff)
  have row: "length (?g ! k) = bsize b"
    using assms(1) k by (simp add: wf_grid_iff)
  have tk: "take (Suc k) ?g = take k ?g @ [?g ! k]"
    using k by (simp add: take_Suc_conv_app_nth)
  have d: "drop k ?g = ?g ! k # drop (Suc k) ?g"
    using k by (simp add: Cons_nth_drop_Suc)
  have len: "length (map merge_once (take k ?g)) = k" using k by simp
  show ?case
    using Suc k len
    by (simp add: merge_rows_def tk d nth_append list_update_append merge_row_eq [OF row])
qed

lemma mergeGrid_eq:
  assumes "wf_board b"
  shows "mergeGrid b =
           b\<lparr>gridCell := map merge_once (gridCell b),
             score := score b + sum_list (map merge_gain (gridCell b)),
             merge := list_ex merge_any (gridCell b)\<rparr>"
proof -
  have wf: "wf_grid (bsize (b\<lparr>merge := False\<rparr>)) (gridCell (b\<lparr>merge := False\<rparr>))"
    using assms by (simp add: wf_board_def)
  have len: "length (gridCell b) = bsize b"
    using assms by (simp add: wf_board_def wf_grid_iff)
  show ?thesis
    unfolding mergeGrid_def
    using merge_rows_loop [OF wf, of "bsize b"] len by simp
qed

lemma wf_board_compressGrid: "wf_board b \<Longrightarrow> wf_board (compressGrid b)"
  by (simp add: compressGrid_eq) (simp add: wf_board_def wf_grid_iff)

lemma wf_board_mergeGrid: "wf_board b \<Longrightarrow> wf_board (mergeGrid b)"
  by (simp add: mergeGrid_eq) (simp add: wf_board_def wf_grid_iff)

lemma merge_once_nth:
  "j < length row \<Longrightarrow>
   merge_once row ! j = row ! j \<or> merge_once row ! j = 0 \<or> merge_once row ! j = 2 * row ! j"
proof (induction row arbitrary: j rule: merge_once.induct)
  case (1 x y rest)
  show ?case
  proof (cases "x = y \<and> x \<noteq> 0")
    case True
    show ?thesis
    proof (cases j)
      case 0
      then show ?thesis using True by simp
    next
      case (Suc j')
      show ?thesis
      proof (cases j')
        case 0
        then show ?thesis using True Suc by simp
      next
        case (Suc j'')
        then show ?thesis using True \<open>j = Suc j'\<close> "1.IH"(1) [OF True, of j''] "1.prems" by simp
      qed
    qed
  next
    case False
    show ?thesis
    proof (cases j)
      case 0
      then show ?thesis using False by auto
    next
      case (Suc j')
      then show ?thesis using False "1.IH"(2) [OF False, of j'] "1.prems" by auto
    qed
  qed
qed simp_all

lemma wf_board_of [simp]: "wf_board (board_of n g) = wf_grid n g"
  by (simp add: wf_board_def board_of_def Board_init_def)

lemma wf_grid_pairs [simp]: "wf_grid 4 grid_pairs"
  by (simp add: wf_grid_def grid_pairs_def)


section \<open>What a move and an undo leave alone\<close>

lemma finish_move_frame:
  "prev_grid (snd (finish_move d mv g)) = prev_grid g"
  "prev_score (snd (finish_move d mv g)) = prev_score g"
  "end_flag (snd (finish_move d mv g)) = end_flag g"
  "won (snd (finish_move d mv g)) = won g"
  "score (board (snd (finish_move d mv g))) = score (board g)"
  "fst (finish_move d mv g) = mv"
  by (simp_all add: finish_move_def random_cell_def Let_def split: prod.split)

lemma move_snapshot:
  assumes "\<not> end_flag g" "\<not> won g"
  shows "prev_grid (snd (move dir d g)) = Some (gridCell (board g))"
    and "prev_score (snd (move dir d g)) = score (board g)"
  using assms
  by (cases dir; simp add: move_left_def move_right_def move_up_def move_down_def
        Let_def finish_move_frame save_undo_def)+

lemma updates_frame:
  "board (after_move_updates g) = board g"
  "prev_grid (after_move_updates g) = prev_grid g"
  "prev_score (after_move_updates g) = prev_score g"
  "move_count (after_move_updates g) = move_count g"
  "board (post_move_updates g) = board g"
  "prev_grid (post_move_updates g) = prev_grid g"
  "prev_score (post_move_updates g) = prev_score g"
  "move_count (post_move_updates g) = move_count g"
  "end_flag (post_move_updates g) = end_flag g"
  "won (post_move_updates g) = won g"
  by (simp_all add: after_move_updates_def post_move_updates_def Let_def)

lemma app_move_snapshot:
  assumes "\<not> end_flag g" "\<not> won g"
  shows "prev_grid (app_move dir d g) = Some (gridCell (board g))"
    and "prev_score (app_move dir d g) = score (board g)"
  using move_snapshot [OF assms, of dir d]
  by (simp_all add: app_move_def updates_frame case_prod_beta)

lemma undo_restores:
  assumes "prev_grid g1 = Some pg" "prev_score g1 = ps"
  shows "gridCell (board (undo g1)) = pg \<and> score (board (undo g1)) = ps \<and>
         prev_grid (undo g1) = None \<and> undo (undo g1) = undo g1"
  using assms by (simp add: undo_def)


section \<open>What the grid operations do to the cells\<close>

subsection \<open>Grids by index\<close>

lemma grid_all_nth:
  assumes "wf_grid n g"
  shows "grid_all Q g \<longleftrightarrow> (\<forall>i<n. \<forall>j<n. Q (g ! i ! j))"
proof -
  have len: "length g = n" and rows: "\<And>i. i < n \<Longrightarrow> length (g ! i) = n"
    using assms by (simp_all add: wf_grid_iff)
  have "grid_all Q g \<longleftrightarrow> (\<forall>i<length g. \<forall>j<length (g ! i). Q (g ! i ! j))"
    by (simp add: grid_all_def list_all_length)
  then show ?thesis using len rows by auto
qed

lemma wf_grid_update:
  assumes "wf_grid n g"
  shows "wf_grid n (g[i := (g ! i)[j := v]])"
proof (cases "i < length g")
  case False
  then show ?thesis using assms by (simp add: list_update_beyond)
next
  case True
  have rows: "\<forall>row\<in>set g. length row = n" and len: "length g = n"
    using assms by (simp_all add: wf_grid_iff)
  have "length ((g ! i)[j := v]) = n"
    using True rows by simp
  moreover have "set (g[i := (g ! i)[j := v]]) \<subseteq> insert ((g ! i)[j := v]) (set g)"
    by (rule set_update_subset_insert)
  ultimately have "\<forall>row\<in>set (g[i := (g ! i)[j := v]]). length row = n"
    using rows by blast
  then show ?thesis using len by (simp add: wf_grid_iff)
qed

lemma grid_all_update:
  assumes "wf_grid n g" "grid_all Q g" "Q v"
  shows "grid_all Q (g[i := (g ! i)[j := v]])"
proof -
  have len: "length g = n" and rows: "\<And>i. i < n \<Longrightarrow> length (g ! i) = n"
    using assms(1) by (simp_all add: wf_grid_iff)
  have "Q (g[i := (g ! i)[j := v]] ! i' ! j')" if "i' < n" "j' < n" for i' j'
  proof -
    have q: "Q (g ! i' ! j')"
      using that assms(2) by (simp add: grid_all_nth [OF assms(1)])
    show ?thesis
    proof (cases "i = i'")
      case True
      then show ?thesis
        using that q assms(3) len rows [of i'] by (cases "j = j'") (simp_all add: nth_list_update)
    next
      case False
      then show ?thesis using q by simp
    qed
  qed
  then show ?thesis
    by (simp add: grid_all_nth [OF wf_grid_update [OF assms(1)]])
qed

subsection \<open>reverse and transpose keep the cells\<close>

lemma reverse_eq:
  "wf_board b \<Longrightarrow> reverse b = b\<lparr>gridCell := map rev (gridCell b)\<rparr>"
  using gridCell_reverse [of b] by (simp add: reverse_def)

lemma transpose_grid_eq:
  "wf_board b \<Longrightarrow>
   transpose_grid b =
     b\<lparr>gridCell := map (\<lambda>j. map (\<lambda>row. row ! j) (gridCell b)) [0..<bsize b]\<rparr>"
  by (simp add: transpose_grid_def wf_board_def zip_star_wf)

lemma wf_board_reverse: "wf_board b \<Longrightarrow> wf_board (reverse b)"
  by (simp add: reverse_eq) (simp add: wf_board_def wf_grid_iff)

lemma wf_board_transpose_grid: "wf_board b \<Longrightarrow> wf_board (transpose_grid b)"
  by (simp add: transpose_grid_eq) (auto simp: wf_board_def wf_grid_iff)

lemma grid_all_reverse:
  "wf_board b \<Longrightarrow> grid_all Q (gridCell (reverse b)) = grid_all Q (gridCell b)"
  by (simp add: reverse_eq) (simp add: grid_all_def list_all_iff)

lemma grid_all_transpose_grid:
  assumes "wf_board b"
  shows "grid_all Q (gridCell (transpose_grid b)) = grid_all Q (gridCell b)"
proof -
  have wf: "wf_grid (bsize b) (gridCell b)" using assms by (simp add: wf_board_def)
  have wf': "wf_grid (bsize b) (gridCell (transpose_grid b))"
    using wf_board_transpose_grid [OF assms] by (simp add: wf_board_def transpose_grid_def)
  have len: "length (gridCell b) = bsize b" using wf by (simp add: wf_grid_iff)
  have nth: "gridCell (transpose_grid b) ! i ! j = gridCell b ! j ! i"
    if "i < bsize b" "j < bsize b" for i j
    using that len by (simp add: transpose_grid_eq [OF assms])
  show ?thesis
    unfolding grid_all_nth [OF wf] grid_all_nth [OF wf'] using nth by auto
qed

subsection \<open>compress and merge on the cells\<close>

lemma list_all_slide_row: "Q 0 \<Longrightarrow> list_all Q row \<Longrightarrow> list_all Q (slide_row row)"
  by (auto simp: slide_row_def list_all_iff)

lemma slide_row_full: "list_all (\<lambda>v. v \<noteq> 0) (slide_row row) = list_all (\<lambda>v. v \<noteq> 0) row"
proof (cases "0 \<in> set row")
  case True
  then have "length (nz row) < length row"
    using filter_length_eq_iff [of row] length_filter_le [of "\<lambda>v. v \<noteq> 0" row] by arith
  then have "0 \<in> set (slide_row row)" by (simp add: slide_row_def)
  then show ?thesis using True by (auto simp: list_all_iff)
next
  case False
  then have "\<not> has_gap row" using has_gap_zero by blast
  then have "slide_row row = row" by (simp add: slide_row_fixed)
  then show ?thesis by simp
qed

lemma list_all_merge_once:
  "tile_closed Q \<Longrightarrow> list_all Q row \<Longrightarrow> list_all Q (merge_once row)"
  by (induction row rule: merge_once.induct) (auto simp: tile_closed_def)

lemma merge_once_zero: "0 \<in> set row \<Longrightarrow> 0 \<in> set (merge_once row)"
  by (induction row rule: merge_once.induct) auto

lemma merge_any_zero: "merge_any row \<Longrightarrow> 0 \<in> set (merge_once row)"
  by (induction row rule: merge_once.induct) (auto split: if_splits)

lemma merge_gain_nonneg: "list_all (\<lambda>v. 0 \<le> v) row \<Longrightarrow> 0 \<le> merge_gain row"
  by (induction row rule: merge_once.induct) auto

lemma grid_all_compressGrid:
  "wf_board b \<Longrightarrow> Q 0 \<Longrightarrow> grid_all Q (gridCell b) \<Longrightarrow> grid_all Q (gridCell (compressGrid b))"
  by (simp add: compressGrid_eq) (simp add: grid_all_def list_all_slide_row list_all_iff [of "list_all Q"])

lemma grid_full_compressGrid:
  "wf_board b \<Longrightarrow> grid_full (gridCell (compressGrid b)) = grid_full (gridCell b)"
  by (simp add: compressGrid_eq) (simp add: grid_full_def grid_all_def list_all_iff slide_row_full [unfolded list_all_iff])

lemma grid_all_mergeGrid:
  "wf_board b \<Longrightarrow> tile_closed Q \<Longrightarrow> grid_all Q (gridCell b) \<Longrightarrow> grid_all Q (gridCell (mergeGrid b))"
  by (simp add: mergeGrid_eq) (simp add: grid_all_def list_all_merge_once list_all_iff [of "list_all Q"])

lemma grid_full_mergeGrid:
  "wf_board b \<Longrightarrow> grid_full (gridCell (mergeGrid b)) \<Longrightarrow> grid_full (gridCell b)"
  by (simp add: mergeGrid_eq) (auto simp: grid_full_def grid_all_def list_all_iff dest: merge_once_zero)

lemma merge_flag_not_full:
  "wf_board b \<Longrightarrow> merge (mergeGrid b) \<Longrightarrow> \<not> grid_full (gridCell (mergeGrid b))"
  by (simp add: mergeGrid_eq) (auto simp: grid_full_def grid_all_def list_all_iff list_ex_iff dest: merge_any_zero)

lemma compress_flag_not_full:
  "wf_board b \<Longrightarrow> compress (compressGrid b) \<Longrightarrow> \<not> grid_full (gridCell b)"
  by (simp add: compressGrid_eq) (auto simp: grid_full_def grid_all_def list_all_iff list_ex_iff dest: has_gap_zero)

subsection \<open>random_cell\<close>

lemma set_empty_cells:
  "set (empty_cells b) = {(i, j). i < bsize b \<and> j < bsize b \<and> gridCell b ! i ! j = 0}"
  by (auto simp: empty_cells_def)

lemma empty_cells_Nil:
  assumes "wf_board b"
  shows "empty_cells b = [] \<longleftrightarrow> grid_full (gridCell b)"
proof -
  have wf: "wf_grid (bsize b) (gridCell b)" using assms by (simp add: wf_board_def)
  have "empty_cells b = [] \<longleftrightarrow> set (empty_cells b) = {}" by simp
  also have "\<dots> \<longleftrightarrow> (\<forall>i<bsize b. \<forall>j<bsize b. gridCell b ! i ! j \<noteq> 0)"
    unfolding set_empty_cells by auto
  finally show ?thesis by (simp add: grid_full_def grid_all_nth [OF wf])
qed

lemma random_cell_full:
  "empty_cells b = [] \<Longrightarrow> random_cell d b = (False, b)"
  by (simp add: random_cell_def)

lemma random_cell_spawn:
  assumes "empty_cells b \<noteq> []"
  shows "\<exists>i j. i < bsize b \<and> j < bsize b \<and> gridCell b ! i ! j = 0 \<and>
           random_cell d b =
             (True, b\<lparr>gridCell := (gridCell b)[i := (gridCell b ! i)[j := (if snd d then 4 else 2)]]\<rparr>)"
proof -
  let ?c = "empty_cells b ! (fst d mod length (empty_cells b))"
  have "?c \<in> set (empty_cells b)" using assms by simp
  then obtain i j where c: "?c = (i, j)" and ij: "i < bsize b" "j < bsize b" "gridCell b ! i ! j = 0"
    unfolding set_empty_cells by auto
  have "random_cell d b =
          (True, b\<lparr>gridCell := (gridCell b)[i := (gridCell b ! i)[j := (if snd d then 4 else 2)]]\<rparr>)"
    using assms c by (simp add: random_cell_def Let_def)
  then show ?thesis using ij by blast
qed

lemma random_cell_cases:
  "random_cell d b = (False, b) \<or>
   (\<exists>i j. snd (random_cell d b) =
      b\<lparr>gridCell := (gridCell b)[i := (gridCell b ! i)[j := (if snd d then 4 else 2)]]\<rparr>)"
proof (cases "empty_cells b = []")
  case True
  then show ?thesis by (simp add: random_cell_full)
next
  case False
  from random_cell_spawn [OF this, of d] show ?thesis by force
qed

lemma random_cell_keeps:
  assumes "wf_board b" "grid_all Q (gridCell b)" "Q 2" "Q 4"
  shows "wf_board (snd (random_cell d b)) \<and> grid_all Q (gridCell (snd (random_cell d b))) \<and>
         bsize (snd (random_cell d b)) = bsize b \<and> score (snd (random_cell d b)) = score b"
proof -
  have wf: "wf_grid (bsize b) (gridCell b)" using assms(1) by (simp add: wf_board_def)
  from random_cell_cases [of d b] show ?thesis
  proof
    assume "random_cell d b = (False, b)"
    then show ?thesis using assms by simp
  next
    assume "\<exists>i j. snd (random_cell d b) =
      b\<lparr>gridCell := (gridCell b)[i := (gridCell b ! i)[j := (if snd d then 4 else 2)]]\<rparr>"
    then obtain i j where e: "snd (random_cell d b) =
      b\<lparr>gridCell := (gridCell b)[i := (gridCell b ! i)[j := (if snd d then 4 else 2)]]\<rparr>" by blast
    have "Q (if snd d then 4 else 2)" using assms(3,4) by simp
    then show ?thesis
      unfolding e using wf_grid_update [OF wf] grid_all_update [OF wf assms(2)]
      by (simp add: wf_board_def)
  qed
qed

subsection \<open>can_merge\<close>

lemma list_ex_upt: "list_ex P [0..<n] \<longleftrightarrow> (\<exists>i<n. P i)"
  by (auto simp: list_ex_iff)

lemma can_merge_iff: "can_merge b \<longleftrightarrow> equal_neighbours (bsize b) (gridCell b)"
proof -
  have lt: "j < bsize b - 1 \<longleftrightarrow> j < bsize b \<and> Suc j < bsize b" for j by arith
  have sym: "(gridCell b ! (i + 1) ! j = gridCell b ! i ! j) =
             (gridCell b ! i ! j = gridCell b ! Suc i ! j)" for i j
    by auto
  show ?thesis
    unfolding can_merge_def equal_neighbours_def list_ex_upt lt sym by auto
qed

lemma equal_nonzero_full:
  assumes "wf_grid n g" "grid_full g"
  shows "equal_nonzero_neighbours n g = equal_neighbours n g"
proof -
  have nz: "\<And>i j. i < n \<Longrightarrow> j < n \<Longrightarrow> g ! i ! j \<noteq> 0"
    using assms by (simp add: grid_full_def grid_all_nth [OF assms(1)])
  have h: "(\<exists>i<n. \<exists>j<n. Suc j < n \<and> g ! i ! j = g ! i ! Suc j \<and> g ! i ! j \<noteq> 0) =
           (\<exists>i<n. \<exists>j<n. Suc j < n \<and> g ! i ! j = g ! i ! Suc j)"
    using nz by blast
  have v: "(\<exists>i<n. \<exists>j<n. Suc i < n \<and> g ! i ! j = g ! Suc i ! j \<and> g ! i ! j \<noteq> 0) =
           (\<exists>i<n. \<exists>j<n. Suc i < n \<and> g ! i ! j = g ! Suc i ! j)"
    using nz by blast
  show ?thesis
    unfolding equal_nonzero_neighbours_def equal_neighbours_def h v ..
qed


section \<open>The directional transform\<close>

lemma reverse_fields [simp]:
  "bsize (reverse b) = bsize b" "score (reverse b) = score b"
  by (simp_all add: reverse_def)

lemma transpose_grid_fields [simp]:
  "bsize (transpose_grid b) = bsize b" "score (transpose_grid b) = score b"
  by (simp_all add: transpose_grid_def)

lemma compressGrid_fields:
  "wf_board b \<Longrightarrow> bsize (compressGrid b) = bsize b"
  "wf_board b \<Longrightarrow> score (compressGrid b) = score b"
  "wf_board b \<Longrightarrow> merge (compressGrid b) = merge b"
  by (simp_all add: compressGrid_eq)

lemma mergeGrid_fields:
  "wf_board b \<Longrightarrow> bsize (mergeGrid b) = bsize b"
  "wf_board b \<Longrightarrow> compress (mergeGrid b) = compress b"
  by (simp_all add: mergeGrid_eq)

lemma orient_keeps:
  assumes "wf_board b"
  shows "wf_board (orient dir b)" and "bsize (orient dir b) = bsize b"
    and "score (orient dir b) = score b"
    and "grid_all Q (gridCell (orient dir b)) = grid_all Q (gridCell b)"
  using assms
  by (cases dir; simp add: wf_board_reverse wf_board_transpose_grid
        grid_all_reverse grid_all_transpose_grid)+

lemma unorient_keeps:
  assumes "wf_board b"
  shows "wf_board (unorient dir b)" and "bsize (unorient dir b) = bsize b"
    and "score (unorient dir b) = score b"
    and "grid_all Q (gridCell (unorient dir b)) = grid_all Q (gridCell b)"
  using assms
  by (cases dir; simp add: wf_board_reverse wf_board_transpose_grid
        grid_all_reverse grid_all_transpose_grid)+

lemma mergeGrid_score:
  assumes "wf_board b" "grid_all (\<lambda>v. 0 \<le> v) (gridCell b)"
  shows "score b \<le> score (mergeGrid b)"
proof -
  have "0 \<le> sum_list (map merge_gain (gridCell b))"
    using assms(2)
    by (intro sum_list_nonneg) (auto simp: grid_all_def list_all_iff intro!: merge_gain_nonneg)
  then show ?thesis by (simp add: mergeGrid_eq [OF assms(1)])
qed

lemma tile_closed_nonneg: "tile_closed (\<lambda>v. 0 \<le> v)"
  by (simp add: tile_closed_def)

lemma transform_keeps:
  assumes wf: "wf_board b"
  shows "wf_board (transform dir b)" and "bsize (transform dir b) = bsize b"
proof -
  let ?b0 = "orient dir b"
  let ?b1 = "compressGrid ?b0"
  let ?b2 = "mergeGrid ?b1"
  let ?b3 = "compressGrid ?b2"
  have w0: "wf_board ?b0" using wf by (rule orient_keeps)
  have w1: "wf_board ?b1" using w0 by (rule wf_board_compressGrid)
  have w2: "wf_board ?b2" using w1 by (rule wf_board_mergeGrid)
  have w3: "wf_board ?b3" using w2 by (rule wf_board_compressGrid)
  show "wf_board (transform dir b)"
    unfolding transform_def using w3 by (rule unorient_keeps)
  show "bsize (transform dir b) = bsize b"
    unfolding transform_def
    by (simp add: unorient_keeps(2) [OF w3] compressGrid_fields(1) [OF w2]
          mergeGrid_fields(1) [OF w1] compressGrid_fields(1) [OF w0] orient_keeps(2) [OF wf])
qed

lemma transform_grid_all:
  assumes wf: "wf_board b" and Q: "tile_closed Q" and g: "grid_all Q (gridCell b)"
  shows "grid_all Q (gridCell (transform dir b))"
proof -
  let ?b0 = "orient dir b"
  let ?b1 = "compressGrid ?b0"
  let ?b2 = "mergeGrid ?b1"
  let ?b3 = "compressGrid ?b2"
  have Q0: "Q 0" using Q by (simp add: tile_closed_def)
  have w0: "wf_board ?b0" using wf by (rule orient_keeps)
  have w1: "wf_board ?b1" using w0 by (rule wf_board_compressGrid)
  have w2: "wf_board ?b2" using w1 by (rule wf_board_mergeGrid)
  have w3: "wf_board ?b3" using w2 by (rule wf_board_compressGrid)
  have g0: "grid_all Q (gridCell ?b0)" using g by (simp add: orient_keeps(4) [OF wf])
  have g1: "grid_all Q (gridCell ?b1)" using w0 Q0 g0 by (rule grid_all_compressGrid)
  have g2: "grid_all Q (gridCell ?b2)" using w1 Q g1 by (rule grid_all_mergeGrid)
  have g3: "grid_all Q (gridCell ?b3)" using w2 Q0 g2 by (rule grid_all_compressGrid)
  show ?thesis
    unfolding transform_def using g3 by (simp add: unorient_keeps(4) [OF w3])
qed

lemma changed_not_full:
  assumes wf: "wf_board b" and ch: "changed dir b"
  shows "\<not> grid_full (gridCell (transform dir b))"
proof -
  let ?b0 = "orient dir b"
  let ?b1 = "compressGrid ?b0"
  let ?b2 = "mergeGrid ?b1"
  let ?b3 = "compressGrid ?b2"
  have w0: "wf_board ?b0" using wf by (rule orient_keeps)
  have w1: "wf_board ?b1" using w0 by (rule wf_board_compressGrid)
  have w2: "wf_board ?b2" using w1 by (rule wf_board_mergeGrid)
  have w3: "wf_board ?b3" using w2 by (rule wf_board_compressGrid)
  from ch have "compress ?b1 \<or> merge ?b2"
    by (simp add: changed_def Let_def mergeGrid_fields(2) [OF w1])
  then have n2: "\<not> grid_full (gridCell ?b2)"
  proof
    assume "compress ?b1"
    then have "\<not> grid_full (gridCell ?b0)" using w0 by (rule compress_flag_not_full [rotated])
    then have "\<not> grid_full (gridCell ?b1)" by (simp add: grid_full_compressGrid [OF w0])
    then show ?thesis using grid_full_mergeGrid [OF w1] by blast
  next
    assume "merge ?b2"
    then show ?thesis using w1 by (rule merge_flag_not_full [rotated])
  qed
  then have "\<not> grid_full (gridCell ?b3)" by (simp add: grid_full_compressGrid [OF w2])
  then show ?thesis
    unfolding transform_def grid_full_def by (simp add: unorient_keeps(4) [OF w3])
qed

lemma transform_score:
  assumes wf: "wf_board b" and g: "grid_all (\<lambda>v. 0 \<le> v) (gridCell b)"
  shows "score b \<le> score (transform dir b)"
proof -
  let ?b0 = "orient dir b"
  let ?b1 = "compressGrid ?b0"
  let ?b2 = "mergeGrid ?b1"
  let ?b3 = "compressGrid ?b2"
  have w0: "wf_board ?b0" using wf by (rule orient_keeps)
  have w1: "wf_board ?b1" using w0 by (rule wf_board_compressGrid)
  have w2: "wf_board ?b2" using w1 by (rule wf_board_mergeGrid)
  have w3: "wf_board ?b3" using w2 by (rule wf_board_compressGrid)
  have g0: "grid_all (\<lambda>v. 0 \<le> v) (gridCell ?b0)" using g by (simp add: orient_keeps(4) [OF wf])
  have g1: "grid_all (\<lambda>v. 0 \<le> v) (gridCell ?b1)"
    using w0 _ g0 by (rule grid_all_compressGrid) simp
  have "score b = score ?b1"
    by (simp add: compressGrid_fields(2) [OF w0] orient_keeps(3) [OF wf])
  also have "\<dots> \<le> score ?b2" using w1 g1 by (rule mergeGrid_score)
  also have "\<dots> = score (transform dir b)"
    unfolding transform_def
    by (simp add: unorient_keeps(3) [OF w3] compressGrid_fields(2) [OF w2])
  finally show ?thesis .
qed

lemma board_save_undo [simp]: "board (save_undo g) = board g"
  by (simp add: save_undo_def)

lemma move_unfold:
  "move dir d g =
     (if end_flag g \<or> won g then (False, g)
      else finish_move d (changed dir (board g))
             ((save_undo g)\<lparr>board := transform dir (board g)\<rparr>))"
  by (cases dir)
     (simp_all add: move_left_def move_right_def move_up_def move_down_def
        transform_def changed_def Let_def)

section \<open>Facts about the concrete states\<close>

lemma wf_grid_stuck [simp]: "wf_grid 4 grid_stuck"
  by (simp add: wf_grid_def grid_stuck_def)

lemma board_of_fields [simp]:
  "bsize (board_of n g) = n" "gridCell (board_of n g) = g" "score (board_of n g) = 0"
  by (simp_all add: board_of_def Board_init_def)

lemma wf_board_init [simp]: "wf_board (Board_init n)"
  by (simp add: wf_board_def wf_grid_iff Board_init_def)

lemma can_merge_stuck: "\<not> can_merge (board_of 4 grid_stuck)"
  by code_simp

lemma grid_full_stuck: "grid_full grid_stuck"
  by (simp add: grid_full_def grid_all_def grid_stuck_def)

lemma grid_pairs_nonneg: "grid_all (\<lambda>v. 0 \<le> v) grid_pairs"
  by (simp add: grid_all_def grid_pairs_def)

lemma game_of_fields [simp]:
  "board (game_of n g) = board_of n g" "\<not> end_flag (game_of n g)" "\<not> won (game_of n g)"
  "target (game_of n g) = 2048" "prev_grid (game_of n g) = None"
  by (simp_all add: game_of_def Game_init_def)

lemma changed_left_pairs: "changed Key_Left (board_of 4 grid_pairs)"
proof -
  have wf: "wf_board (board_of 4 grid_pairs)" by simp
  have w1: "wf_board (compressGrid (board_of 4 grid_pairs))"
    using wf by (rule wf_board_compressGrid)
  have "compress (compressGrid (board_of 4 grid_pairs))"
    by (simp add: compressGrid_eq [OF wf]) (simp add: grid_pairs_def)
  then show ?thesis
    by (simp add: changed_def Let_def mergeGrid_fields(2) [OF w1])
qed

section \<open>Powers of two\<close>

lemma pow2_ge: "pow2 v \<Longrightarrow> 2 \<le> v"
  by (subst (asm) pow2.simps) (simp split: if_splits)

lemma pow2_two [simp]: "pow2 2"
  by (subst pow2.simps) simp

lemma pow2_double: "pow2 v \<Longrightarrow> pow2 (2 * v)"
  using pow2_ge [of v] by (subst pow2.simps) simp

lemma pow2_four [simp]: "pow2 4"
  using pow2_double [of 2] by simp

lemma pow2_power: "0 < k \<Longrightarrow> pow2 (2 ^ k)"
proof (induction k)
  case 0
  then show ?case by simp
next
  case (Suc k)
  show ?case
  proof (cases "k = 0")
    case True
    then show ?thesis by simp
  next
    case False
    then have "pow2 (2 ^ k)" using Suc by simp
    then show ?thesis using pow2_double [of "2 ^ k"] by simp
  qed
qed

lemma pow2_is_power: "pow2 v \<Longrightarrow> \<exists>k>0. v = 2 ^ k"
proof (induction v rule: pow2.induct)
  case (1 v)
  show ?case
  proof (cases "v = 2")
    case True
    then have "v = 2 ^ 1" by simp
    then show ?thesis by blast
  next
    case False
    from "1.prems" have ge: "\<not> v < 2" and ev: "even v" and h: "pow2 (v div 2)"
      using False by (subst (asm) pow2.simps, simp split: if_splits)+
    from "1.IH" [OF ge False h] obtain k where k: "0 < k" "v div 2 = 2 ^ k" by blast
    have "v = 2 * (v div 2)" using ev by simp
    then have "v = 2 ^ Suc k" using k(2) by simp
    then show ?thesis by blast
  qed
qed

lemma pow2_iff: "pow2 v \<longleftrightarrow> (\<exists>k>0. v = 2 ^ k)"
  using pow2_is_power pow2_power by blast

lemma tile_closed_tile_ok: "tile_closed tile_ok"
  using pow2_double by (auto simp: tile_closed_def tile_ok_def)

lemma tile_ok_spawn [simp]: "tile_ok 2" "tile_ok 4" "tile_ok 0"
  by (simp_all add: tile_ok_def)

section \<open>The invariant\<close>

lemma game_inv_spawn:
  assumes "game_inv n g"
  shows "game_inv n (g\<lparr>board := snd (random_cell d (board g))\<rparr>)"
proof -
  have wf: "wf_board (board g)" and ok: "grid_all tile_ok (gridCell (board g))"
    using assms by (simp_all add: game_inv_def wf_board_def)
  have n: "bsize (board g) = n" using assms by (simp add: game_inv_def)
  let ?b = "snd (random_cell d (board g))"
  from random_cell_keeps [OF wf ok, of d]
  have "wf_board ?b" and g: "grid_all tile_ok (gridCell ?b)" and b: "bsize ?b = bsize (board g)"
    by simp_all
  then have "wf_grid n (gridCell ?b)" using n by (simp add: wf_board_def)
  then show ?thesis
    using assms g b n by (simp add: game_inv_def)
qed

lemma game_inv_blank:
  "game_inv n (g\<lparr>board := (board g)\<lparr>gridCell := replicate n (replicate n 0), score := s\<rparr>,
                 move_count := mc, end_flag := e, won := w,
                 prev_grid := None, prev_score := ps\<rparr>) = (bsize (board g) = n)"
  by (auto simp: game_inv_def wf_grid_iff grid_all_def list_all_iff)

lemma game_inv_start:
  "game_inv n (start d1 d2 (Game_init (Board_init n) best t))"
proof -
  have "game_inv n (Game_init (Board_init n) best t)"
    by (auto simp: game_inv_def Game_init_def Board_init_def wf_grid_iff grid_all_def list_all_iff)
  then show ?thesis
    unfolding start_def Let_def by (intro game_inv_spawn)
qed

lemma game_inv_reset:
  assumes "game_inv n g"
  shows "game_inv n (reset d1 d2 g)"
proof -
  have n: "bsize (board g) = n" using assms by (simp add: game_inv_def)
  show ?thesis
    unfolding reset_def Let_def n
    by (intro game_inv_spawn) (simp add: game_inv_blank n)
qed

lemma game_inv_undo:
  assumes "game_inv n g"
  shows "game_inv n (undo g)"
  using assms by (auto simp: game_inv_def undo_def split: option.splits)

lemma game_inv_move:
  assumes "game_inv n g"
  shows "game_inv n (snd (move dir d g))"
proof (cases "end_flag g \<or> won g")
  case True
  then show ?thesis using assms by (simp add: move_unfold)
next
  case False
  have wf: "wf_board (board g)" and ok: "grid_all tile_ok (gridCell (board g))"
    and n: "bsize (board g) = n"
    using assms by (simp_all add: game_inv_def wf_board_def)
  let ?g1 = "(save_undo g)\<lparr>board := transform dir (board g)\<rparr>"
  have "wf_board (transform dir (board g))" "bsize (transform dir (board g)) = n"
    using transform_keeps [OF wf, of dir] n by simp_all
  moreover have "grid_all tile_ok (gridCell (transform dir (board g)))"
    using wf tile_closed_tile_ok ok by (rule transform_grid_all)
  ultimately have i1: "game_inv n ?g1"
    using wf ok n by (simp add: game_inv_def save_undo_def wf_board_def)
  have i2: "game_inv n (?g1\<lparr>move_count := mc\<rparr>)" for mc
    using i1 by (simp add: game_inv_def)
  show ?thesis
  proof (cases "changed dir (board g)")
    case True
    have "snd (move dir d g) =
            (?g1\<lparr>move_count := move_count ?g1 + 1\<rparr>)
              \<lparr>board := snd (random_cell d (board (?g1\<lparr>move_count := move_count ?g1 + 1\<rparr>)))\<rparr>"
      using False True by (simp add: move_unfold finish_move_def Let_def)
    then show ?thesis using game_inv_spawn [OF i2] by simp
  next
    case c: False
    then show ?thesis using False i1 by (simp add: move_unfold finish_move_def)
  qed
qed

lemma game_inv_frame:
  "board g' = board g \<Longrightarrow> prev_grid g' = prev_grid g \<Longrightarrow> game_inv n g' = game_inv n g"
  by (simp add: game_inv_def)

lemma game_inv_app_move:
  assumes "game_inv n g"
  shows "game_inv n (app_move dir d g)"
proof -
  have "game_inv n (app_move dir d g) = game_inv n (snd (move dir d g))"
    by (rule game_inv_frame) (simp_all add: app_move_def updates_frame case_prod_beta)
  then show ?thesis using game_inv_move [OF assms] by simp
qed

lemma reachable_inv: "reachable g \<Longrightarrow> game_inv 4 g"
proof (induction rule: reachable.induct)
  case (r_init best d1 d2)
  show ?case unfolding app_init_def by (rule game_inv_start)
next
  case (r_move g dir d)
  then show ?case by (simp add: game_inv_app_move)
next
  case (r_undo g)
  then show ?case by (simp add: app_undo_def game_inv_undo)
next
  case (r_new g yes d1 d2)
  then show ?case by (simp add: new_game_def game_inv_reset)
next
  case (r_best g yes)
  then show ?case by (simp add: reset_best_def game_inv_def)
next
  case (r_target g t)
  then show ?case
    by (simp add: app_set_target_def set_target_def game_inv_def split: option.splits)
qed

lemma game_inv_cells:
  assumes "game_inv n g" "i < n" "j < n"
  shows "gridCell (board g) ! i ! j = 0 \<or> (\<exists>k>0. gridCell (board g) ! i ! j = 2 ^ k)"
proof -
  have wf: "wf_grid n (gridCell (board g))" and ok: "grid_all tile_ok (gridCell (board g))"
    using assms(1) by (simp_all add: game_inv_def)
  have "tile_ok (gridCell (board g) ! i ! j)"
    using ok assms(2,3) by (simp add: grid_all_nth [OF wf])
  then show ?thesis by (simp add: tile_ok_def pow2_iff)
qed

lemma game_inv_nonneg:
  assumes "game_inv n g"
  shows "wf_board (board g)" and "grid_all (\<lambda>v. 0 \<le> v) (gridCell (board g))"
proof -
  show "wf_board (board g)" using assms by (simp add: game_inv_def wf_board_def)
  have "0 \<le> v" if "tile_ok v" for v
    using that pow2_ge [of v] by (auto simp: tile_ok_def)
  then show "grid_all (\<lambda>v. 0 \<le> v) (gridCell (board g))"
    using assms by (auto simp: game_inv_def grid_all_def list_all_iff)
qed

lemma move_score:
  assumes "wf_board (board g)" and "grid_all (\<lambda>v. 0 \<le> v) (gridCell (board g))"
  shows "score (board g) \<le> score (board (snd (move dir d g)))"
    and "score (board g) \<le> score (board (app_move dir d g))"
proof -
  show m: "score (board g) \<le> score (board (snd (move dir d g)))"
    using transform_score [OF assms, of dir]
    by (simp add: move_unfold finish_move_frame)
  have "board (app_move dir d g) = board (snd (move dir d g))"
    by (simp add: app_move_def updates_frame case_prod_beta)
  then show "score (board g) \<le> score (board (app_move dir d g))" using m by simp
qed

section \<open>A grid on which nothing can move\<close>

lemma merge_any_pair:
  "merge_any row \<Longrightarrow> \<exists>j. Suc j < length row \<and> row ! j = row ! Suc j"
proof (induction row rule: merge_once.induct)
  case (1 x y rest)
  show ?case
  proof (cases "x = y \<and> x \<noteq> 0")
    case True
    then have "Suc 0 < length (x # y # rest) \<and> (x # y # rest) ! 0 = (x # y # rest) ! Suc 0"
      by simp
    then show ?thesis by blast
  next
    case False
    then have "merge_any (y # rest)" using "1.prems" by simp
    from "1.IH"(2) [OF False this] obtain j where
      "Suc j < length (y # rest)" "(y # rest) ! j = (y # rest) ! Suc j" by blast
    then have "Suc (Suc j) < length (x # y # rest) \<and>
               (x # y # rest) ! Suc j = (x # y # rest) ! Suc (Suc j)" by simp
    then show ?thesis by blast
  qed
qed simp_all


lemma rev_pair:
  assumes "Suc j < length row" "rev row ! j = rev row ! Suc j"
  shows "\<exists>j'. Suc j' < length row \<and> row ! j' = row ! Suc j'"
proof -
  let ?j = "length row - Suc (Suc j)"
  have a: "rev row ! j = row ! Suc ?j"
    using assms(1) by (simp add: rev_nth Suc_diff_Suc)
  have b: "rev row ! Suc j = row ! ?j"
    using assms(1) by (simp add: rev_nth)
  have "Suc ?j < length row" using assms(1) by arith
  moreover have "row ! ?j = row ! Suc ?j" using a b assms(2) by simp
  ultimately show ?thesis by blast
qed

lemma orient_pair:
  assumes wf: "wf_board b" and i: "i < bsize b" and j: "Suc j < bsize b"
    and eq: "gridCell (orient dir b) ! i ! j = gridCell (orient dir b) ! i ! Suc j"
  shows "equal_neighbours (bsize b) (gridCell b)"
proof -
  let ?n = "bsize b" and ?g = "gridCell b"
  have len: "length ?g = ?n" and rows: "\<And>i. i < ?n \<Longrightarrow> length (?g ! i) = ?n"
    using wf by (simp_all add: wf_board_def wf_grid_iff)
  have H: "equal_neighbours ?n ?g" if "i' < ?n" "Suc j' < ?n" "?g ! i' ! j' = ?g ! i' ! Suc j'"
    for i' j'
    unfolding equal_neighbours_def using that by (intro disjI1) (metis Suc_lessD)
  have V: "equal_neighbours ?n ?g" if "Suc i' < ?n" "j' < ?n" "?g ! i' ! j' = ?g ! Suc i' ! j'"
    for i' j'
    unfolding equal_neighbours_def using that by (intro disjI2) (metis Suc_lessD)
  have wt: "wf_board (transpose_grid b)" using wf by (rule wf_board_transpose_grid)
  have tn: "gridCell (transpose_grid b) ! i' ! j' = ?g ! j' ! i'" if "i' < ?n" "j' < ?n" for i' j'
    using that len by (simp add: transpose_grid_eq [OF wf])
  have tl: "length (gridCell (transpose_grid b) ! i) = ?n"
    using i len by (simp add: transpose_grid_eq [OF wf])
  show ?thesis
  proof (cases dir)
    case Key_Left
    then show ?thesis using H [OF i j] eq by simp
  next
    case Key_Right
    then have "rev (?g ! i) ! j = rev (?g ! i) ! Suc j"
      using eq i len by (simp add: reverse_eq [OF wf])
    from rev_pair [OF _ this] obtain j' where "Suc j' < ?n" "?g ! i ! j' = ?g ! i ! Suc j'"
      using j rows [OF i] by auto
    then show ?thesis using H [OF i] by blast
  next
    case Key_Up
    then have "?g ! j ! i = ?g ! Suc j ! i"
      using eq tn [OF i] j by simp
    then show ?thesis using V [OF j i] by simp
  next
    case Key_Down
    have tlen: "length (gridCell (transpose_grid b)) = ?n"
      using wt by (simp add: wf_board_def wf_grid_iff)
    have "gridCell (orient dir b) = map rev (gridCell (transpose_grid b))"
      using Key_Down reverse_eq [OF wt] by simp
    then have "rev (gridCell (transpose_grid b) ! i) ! j =
               rev (gridCell (transpose_grid b) ! i) ! Suc j"
      using eq i tlen by simp
    from rev_pair [OF _ this] obtain j' where j': "Suc j' < ?n"
      and "gridCell (transpose_grid b) ! i ! j' = gridCell (transpose_grid b) ! i ! Suc j'"
      using j tl by auto
    then have "?g ! j' ! i = ?g ! Suc j' ! i"
      using tn [OF i] by simp
    then show ?thesis using V [OF j' i] by simp
  qed
qed

lemma stuck_not_changed:
  assumes wf: "wf_board b" and full: "grid_full (gridCell b)"
    and ne: "\<not> equal_neighbours (bsize b) (gridCell b)"
  shows "\<not> changed dir b"
proof -
  let ?b0 = "orient dir b"
  let ?b1 = "compressGrid ?b0"
  have w0: "wf_board ?b0" and n0: "bsize ?b0 = bsize b" using wf by (rule orient_keeps)+
  have w1: "wf_board ?b1" using w0 by (rule wf_board_compressGrid)
  have len0: "length (gridCell ?b0) = bsize b"
    and rows0: "\<forall>row\<in>set (gridCell ?b0). length row = bsize b"
    using w0 n0 by (simp_all add: wf_board_def wf_grid_iff)
  have f0: "grid_full (gridCell ?b0)"
    using full unfolding grid_full_def by (simp add: orient_keeps(4) [OF wf])
  then have nogap: "\<not> has_gap row" if "row \<in> set (gridCell ?b0)" for row
    using that has_gap_zero [of row] by (auto simp: grid_full_def grid_all_def list_all_iff)
  then have same: "map slide_row (gridCell ?b0) = gridCell ?b0"
    by (simp add: map_idI slide_row_fixed)
  have c: "\<not> compress ?b1"
    using nogap by (simp add: compressGrid_eq [OF w0] list_ex_iff)
  have g1: "gridCell ?b1 = gridCell ?b0"
    using same by (simp add: compressGrid_eq [OF w0])
  have "\<not> merge_any row" if r: "row \<in> set (gridCell ?b0)" for row
  proof
    assume "merge_any row"
    from merge_any_pair [OF this] obtain j where
      j: "Suc j < length row" "row ! j = row ! Suc j" by blast
    from r obtain i where i: "i < length (gridCell ?b0)" "gridCell ?b0 ! i = row"
      by (auto simp: in_set_conv_nth)
    have "equal_neighbours (bsize b) (gridCell b)"
      using wf _ _ _ 
    proof (rule orient_pair)
      show "i < bsize b" using i len0 by simp
      show "Suc j < bsize b" using j rows0 r by simp
      show "gridCell ?b0 ! i ! j = gridCell ?b0 ! i ! Suc j" using i j by simp
    qed
    then show False using ne by simp
  qed
  then have m: "\<not> merge (mergeGrid ?b1)"
    by (simp add: mergeGrid_eq [OF w1] g1 list_ex_iff)
  show ?thesis
    using c m by (simp add: changed_def Let_def mergeGrid_fields(2) [OF w1])
qed





section \<open>A stuck grid is the grid of a finished game\<close>
















section \<open>Facts about the game played to its end\<close>







section \<open>The merge pass\<close>

text \<open>
  Claim C1. On a square grid one call of \<^verbatim>\<open>mergeGrid\<close> is, row by row, the single
  left-to-right pass \<open>merge_once\<close>: a pair of equal non-zero neighbours becomes the doubled
  value and a zero, the scan continues behind the pair, and the score grows by the doubled
  values. Hence every cell of the result is the old cell, zero, or twice the old cell
  (never four times: no cell is merged twice), and a row \<open>[2,2,2,2]\<close> becomes \<open>[4,0,4,0]\<close>.
\<close>

theorem mergeGrid_single_pass:
  assumes "wf_board b"
  shows "gridCell (mergeGrid b) = map merge_once (gridCell b) \<and>
         score (mergeGrid b) = score b + sum_list (map merge_gain (gridCell b)) \<and>
         merge (mergeGrid b) = list_ex merge_any (gridCell b) \<and>
         (\<forall>i<bsize b. \<forall>j<bsize b.
            gridCell (mergeGrid b) ! i ! j = gridCell b ! i ! j \<or>
            gridCell (mergeGrid b) ! i ! j = 0 \<or>
            gridCell (mergeGrid b) ! i ! j = 2 * gridCell b ! i ! j) \<and>
         (\<forall>i<bsize b. gridCell b ! i = [2, 2, 2, 2] \<longrightarrow>
            gridCell (mergeGrid b) ! i = [4, 0, 4, 0])"
proof -
  have len: "length (gridCell b) = bsize b"
    and rows: "\<And>i. i < bsize b \<Longrightarrow> length (gridCell b ! i) = bsize b"
    using assms by (simp_all add: wf_board_def wf_grid_iff)
  have g: "gridCell (mergeGrid b) = map merge_once (gridCell b)"
    by (simp add: mergeGrid_eq [OF assms])
  have cell: "gridCell (mergeGrid b) ! i ! j = gridCell b ! i ! j \<or>
            gridCell (mergeGrid b) ! i ! j = 0 \<or>
            gridCell (mergeGrid b) ! i ! j = 2 * gridCell b ! i ! j"
    if "i < bsize b" "j < bsize b" for i j
    using that merge_once_nth [of j "gridCell b ! i"] len rows by (simp add: g)
  have ex: "gridCell (mergeGrid b) ! i = [4, 0, 4, 0]"
    if "i < bsize b" "gridCell b ! i = [2, 2, 2, 2]" for i
    using that len by (simp add: g)
  show ?thesis
    using g cell ex by (simp add: mergeGrid_eq [OF assms])
qed

theorem mergeGrid_single_pass_witness:
  "wf_board (board_of 4 grid_pairs) \<and>
   gridCell (mergeGrid (board_of 4 grid_pairs)) =
     [[4, 0, 4, 0], [0, 0, 0, 0], [4, 0, 4, 8], [0, 2, 0, 0]] \<and>
   score (mergeGrid (board_of 4 grid_pairs)) = 4 + 4"
proof -
  have wf: "wf_board (board_of 4 grid_pairs)" by simp
  have g: "gridCell (mergeGrid (board_of 4 grid_pairs)) =
             map merge_once (gridCell (board_of 4 grid_pairs))"
    and s: "score (mergeGrid (board_of 4 grid_pairs)) =
             score (board_of 4 grid_pairs) + sum_list (map merge_gain (gridCell (board_of 4 grid_pairs)))"
    using mergeGrid_single_pass [OF wf] by simp_all
  show ?thesis
    unfolding g s using wf by (simp add: board_of_def Board_init_def grid_pairs_def)
qed

section \<open>can_merge\<close>

text \<open>
  Claim C2 as stated (true exactly when two neighbours hold equal non-zero values) fails
  on the all-zero grid of a fresh board: \<^verbatim>\<open>can_merge\<close> compares neighbours without a test
  for zero, so two empty neighbours count, while no two neighbours hold equal non-zero
  values.
\<close>

theorem can_merge_zero_counterexample:
  "wf_board (Board_init 4) \<and> can_merge (Board_init 4) \<and>
   \<not> equal_nonzero_neighbours 4 (gridCell (Board_init 4))"
proof -
  have z: "gridCell (Board_init 4) ! i ! j = 0" if "i < 4" "j < 4" for i j
    using that by (simp add: Board_init_def)
  have "gridCell (Board_init 4) ! 0 ! 0 = gridCell (Board_init 4) ! 0 ! Suc 0"
    using z [of 0 0] z [of 0 "Suc 0"] by simp
  then have "\<exists>i<4. \<exists>j<4. Suc j < 4 \<and>
      gridCell (Board_init 4) ! i ! j = gridCell (Board_init 4) ! i ! Suc j"
    by (intro exI [of _ "0::nat"] conjI) simp_all
  then have "equal_neighbours 4 (gridCell (Board_init 4))"
    unfolding equal_neighbours_def by (rule disjI1)
  then have "can_merge (Board_init 4)"
    by (simp add: can_merge_iff Board_init_def)
  moreover have "\<not> equal_nonzero_neighbours 4 (gridCell (Board_init 4))"
    unfolding equal_nonzero_neighbours_def using z by blast
  ultimately show ?thesis by simp
qed

text \<open>
  Claim C2, amended. On a square grid \<^verbatim>\<open>can_merge\<close> is true exactly when two neighbours
  in a row or in a column hold equal values, empty cells included; on a grid without an
  empty cell, which is where \<^verbatim>\<open>can_move\<close> consults it, that is exactly when two
  neighbours hold equal non-zero values.
\<close>

theorem can_merge_equal_neighbours:
  assumes "wf_board b"
  shows "(can_merge b \<longleftrightarrow> equal_neighbours (bsize b) (gridCell b)) \<and>
         (grid_full (gridCell b) \<longrightarrow>
            (can_merge b \<longleftrightarrow> equal_nonzero_neighbours (bsize b) (gridCell b)))"
  using assms equal_nonzero_full [of "bsize b" "gridCell b"]
  by (simp add: can_merge_iff wf_board_def)

theorem can_merge_equal_neighbours_witness:
  "wf_board (board_of 4 grid_stuck) \<and> grid_full (gridCell (board_of 4 grid_stuck)) \<and>
   \<not> can_merge (board_of 4 grid_stuck) \<and>
   \<not> equal_neighbours 4 grid_stuck \<and> \<not> equal_nonzero_neighbours 4 grid_stuck"
proof -
  have wf: "wf_board (board_of 4 grid_stuck)" by simp
  show ?thesis
    using can_merge_equal_neighbours [OF wf] wf can_merge_stuck grid_full_stuck by simp
qed

section \<open>The transition to Lost\<close>



section \<open>Undo\<close>

text \<open>
  Claim C4. In a game that is neither won nor over, \<^verbatim>\<open>undo\<close> right after a move (through
  the method of the game or through the handler of the application, accepted or not)
  restores the grid and the score from before the move and clears the snapshot, and a
  second \<^verbatim>\<open>undo\<close> changes nothing.
\<close>

theorem undo_after_move:
  assumes "\<not> end_flag g" and "\<not> won g"
  shows "(let g1 = snd (move dir d g) in
            gridCell (board (undo g1)) = gridCell (board g) \<and>
            score (board (undo g1)) = score (board g) \<and>
            prev_grid (undo g1) = None \<and> undo (undo g1) = undo g1) \<and>
         (let g2 = app_move dir d g in
            gridCell (board (app_undo g2)) = gridCell (board g) \<and>
            score (board (app_undo g2)) = score (board g) \<and>
            prev_grid (app_undo g2) = None \<and> app_undo (app_undo g2) = app_undo g2)"
  unfolding Let_def app_undo_def
  using undo_restores [OF move_snapshot [OF assms, of dir d]]
        undo_restores [OF app_move_snapshot [OF assms, of dir d]]
  by simp

theorem undo_after_move_witness:
  "\<not> end_flag (game_of 4 grid_pairs) \<and> \<not> won (game_of 4 grid_pairs) \<and>
   gridCell (board (undo (snd (move Key_Left (0, False) (game_of 4 grid_pairs))))) = grid_pairs \<and>
   score (board (undo (snd (move Key_Left (0, False) (game_of 4 grid_pairs))))) = 0 \<and>
   prev_grid (undo (snd (move Key_Left (0, False) (game_of 4 grid_pairs)))) = None"
proof -
  have a: "\<not> end_flag (game_of 4 grid_pairs)" and b: "\<not> won (game_of 4 grid_pairs)"
    by (simp_all add: game_of_def Game_init_def)
  show ?thesis
    using undo_after_move [OF a b, of Key_Left "(0, False)"] a b
    by (simp add: Let_def game_of_def Game_init_def board_of_def Board_init_def)
qed

section \<open>Moves in a terminal state\<close>

text \<open>
  Claim C5. When the game is won or over, a move in any direction returns \<open>False\<close> and
  leaves the whole game as it is; through the handler of the application the board (grid
  and score), the move counter, the snapshot and both flags are unchanged.
\<close>

theorem terminal_move_rejected:
  assumes "end_flag g \<or> won g"
  shows "move dir d g = (False, g) \<and>
         board (app_move dir d g) = board g \<and>
         move_count (app_move dir d g) = move_count g \<and>
         prev_grid (app_move dir d g) = prev_grid g \<and>
         prev_score (app_move dir d g) = prev_score g \<and>
         end_flag (app_move dir d g) = end_flag g \<and>
         won (app_move dir d g) = won g"
proof -
  have m: "move dir d g = (False, g)"
    using assms
    by (cases dir) (auto simp: move_left_def move_right_def move_up_def move_down_def)
  show ?thesis
    by (simp add: m app_move_def updates_frame)
qed

theorem terminal_move_rejected_witness:
  "end_flag ((game_of 4 grid_stuck)\<lparr>end_flag := True\<rparr>) \<and>
   move Key_Up (0, False) ((game_of 4 grid_stuck)\<lparr>end_flag := True\<rparr>) =
     (False, (game_of 4 grid_stuck)\<lparr>end_flag := True\<rparr>)"
  using terminal_move_rejected [of "(game_of 4 grid_stuck)\<lparr>end_flag := True\<rparr>" Key_Up "(0, False)"]
  by simp

section \<open>The spawn of an accepted move\<close>

text \<open>
  Claim C6. When a move on a square grid is accepted (the method returns \<open>True\<close>), the
  spawn succeeds, and the grid after the move is the grid produced by the directional
  transform with exactly one cell, empty in that grid, set to 2 or 4.
\<close>

theorem accepted_move_spawns:
  assumes "wf_board (board g)" and "fst (move dir d g)"
  shows "fst (random_cell d (transform dir (board g))) \<and>
         (\<exists>i j v. i < bsize (board g) \<and> j < bsize (board g) \<and> (v = 2 \<or> v = 4) \<and>
            gridCell (transform dir (board g)) ! i ! j = 0 \<and>
            gridCell (board (snd (move dir d g))) =
              (gridCell (transform dir (board g)))
                [i := (gridCell (transform dir (board g)) ! i)[j := v]])"
proof -
  let ?t = "transform dir (board g)"
  have live: "\<not> (end_flag g \<or> won g)"
    using assms(2) by (auto simp: move_unfold)
  then have ch: "changed dir (board g)"
    using assms(2) by (simp add: move_unfold finish_move_frame)
  have b: "board (snd (move dir d g)) = snd (random_cell d ?t)"
    using live ch by (simp add: move_unfold finish_move_def Let_def)
  have wt: "wf_board ?t" and bs: "bsize ?t = bsize (board g)"
    using assms(1) by (rule transform_keeps)+
  have "\<not> grid_full (gridCell ?t)" using assms(1) ch by (rule changed_not_full)
  then have ne: "empty_cells ?t \<noteq> []" by (simp add: empty_cells_Nil [OF wt])
  from random_cell_spawn [OF ne, of d] obtain i j where
    ij: "i < bsize ?t" "j < bsize ?t" "gridCell ?t ! i ! j = 0"
    and r: "random_cell d ?t =
      (True, ?t\<lparr>gridCell := (gridCell ?t)[i := (gridCell ?t ! i)[j := (if snd d then 4 else 2)]]\<rparr>)"
    by blast
  have cell: "gridCell (board (snd (move dir d g))) =
          (gridCell ?t)[i := (gridCell ?t ! i)[j := (if snd d then 4 else 2)]]"
    by (simp add: b r)
  have v: "(if snd d then 4 else 2) = (2::int) \<or> (if snd d then 4 else 2) = (4::int)"
    by simp
  have "\<exists>i j v. i < bsize (board g) \<and> j < bsize (board g) \<and> (v = 2 \<or> v = 4) \<and>
            gridCell ?t ! i ! j = 0 \<and>
            gridCell (board (snd (move dir d g))) = (gridCell ?t)[i := (gridCell ?t ! i)[j := v]]"
    using ij cell v unfolding bs by blast
  then show ?thesis by (simp add: r)
qed

theorem accepted_move_spawns_witness:
  "wf_board (board (game_of 4 grid_pairs)) \<and>
   fst (move Key_Left (0, False) (game_of 4 grid_pairs)) \<and>
   fst (random_cell (0, False) (transform Key_Left (board (game_of 4 grid_pairs))))"
proof -
  have wf: "wf_board (board (game_of 4 grid_pairs))" by simp
  have mv: "fst (move Key_Left (0, False) (game_of 4 grid_pairs))"
    using changed_left_pairs by (simp add: move_unfold finish_move_frame)
  show ?thesis
    using accepted_move_spawns [OF wf mv] wf mv by simp
qed

section \<open>Compressing twice\<close>

text \<open>
  Claim C7. On a square grid a second \<^verbatim>\<open>compressGrid\<close> leaves the grid of the first as
  it is and reports, through the flag \<^verbatim>\<open>compress\<close>, that nothing moved; no other field
  differs.
\<close>

theorem compressGrid_idempotent:
  assumes "wf_board b"
  shows "gridCell (compressGrid (compressGrid b)) = gridCell (compressGrid b) \<and>
         compress (compressGrid (compressGrid b)) = False \<and>
         compressGrid (compressGrid b) = (compressGrid b)\<lparr>compress := False\<rparr>"
proof -
  have wf: "wf_board (compressGrid b)" using assms by (rule wf_board_compressGrid)
  have g: "map slide_row (map slide_row (gridCell b)) = map slide_row (gridCell b)"
    by (simp add: slide_row_idem)
  have f: "\<not> list_ex has_gap (map slide_row (gridCell b))"
    by (simp add: list_ex_iff)
  show ?thesis
    using g f by (simp add: compressGrid_eq [OF wf]) (simp add: compressGrid_eq [OF assms])
qed

theorem compressGrid_idempotent_witness:
  "wf_board (board_of 4 grid_pairs) \<and>
   gridCell (compressGrid (board_of 4 grid_pairs)) =
     [[2, 2, 2, 2], [0, 0, 0, 0], [4, 4, 8, 0], [2, 0, 0, 0]] \<and>
   compress (compressGrid (board_of 4 grid_pairs)) \<and>
   gridCell (compressGrid (compressGrid (board_of 4 grid_pairs))) =
     [[2, 2, 2, 2], [0, 0, 0, 0], [4, 4, 8, 0], [2, 0, 0, 0]] \<and>
   \<not> compress (compressGrid (compressGrid (board_of 4 grid_pairs)))"
proof -
  have wf: "wf_board (board_of 4 grid_pairs)" by simp
  have one: "gridCell (compressGrid (board_of 4 grid_pairs)) =
     [[2, 2, 2, 2], [0, 0, 0, 0], [4, 4, 8, 0], [2, 0, 0, 0]]"
    and flag: "compress (compressGrid (board_of 4 grid_pairs))"
    by (simp_all add: compressGrid_eq [OF wf])
       (simp_all add: board_of_def Board_init_def grid_pairs_def slide_row_def)
  show ?thesis
    using compressGrid_idempotent [OF wf] wf one flag by simp
qed

section \<open>Every tile is a power of two\<close>

text \<open>
  Claim C8. The invariant \<open>game_inv\<close> (a square grid whose cells are empty or powers of two
  from 2 on, and the same for the grid kept for undo) holds after \<^verbatim>\<open>start\<close> on a fresh
  board of any size, and \<^verbatim>\<open>reset\<close>, a move in any direction (through the game or through
  the application), a spawn and \<^verbatim>\<open>undo\<close> all keep it; under it every cell is 0 or \<open>2 ^ k\<close>
  with \<open>k > 0\<close>. Hence every state the application reaches has such a grid.
\<close>

theorem tiles_power_of_two:
  "game_inv n (start d1 d2 (Game_init (Board_init n) best t)) \<and>
   (game_inv n g \<longrightarrow>
      game_inv n (reset d1 d2 g) \<and> game_inv n (snd (move dir d g)) \<and>
      game_inv n (app_move dir d g) \<and>
      game_inv n (g\<lparr>board := snd (random_cell d (board g))\<rparr>) \<and>
      game_inv n (undo g) \<and>
      (\<forall>i<n. \<forall>j<n. gridCell (board g) ! i ! j = 0 \<or>
                      (\<exists>k>0. gridCell (board g) ! i ! j = 2 ^ k))) \<and>
   (reachable g \<longrightarrow>
      game_inv 4 g \<and>
      (\<forall>i<4. \<forall>j<4. gridCell (board g) ! i ! j = 0 \<or>
                      (\<exists>k>0. gridCell (board g) ! i ! j = 2 ^ k)))"
proof (intro conjI impI allI)
  show "game_inv n (start d1 d2 (Game_init (Board_init n) best t))"
    by (rule game_inv_start)
next
  assume "game_inv n g"
  then show "game_inv n (reset d1 d2 g)" by (rule game_inv_reset)
next
  assume "game_inv n g"
  then show "game_inv n (snd (move dir d g))" by (rule game_inv_move)
next
  assume "game_inv n g"
  then show "game_inv n (app_move dir d g)" by (rule game_inv_app_move)
next
  assume "game_inv n g"
  then show "game_inv n (g\<lparr>board := snd (random_cell d (board g))\<rparr>)"
    by (rule game_inv_spawn)
next
  assume "game_inv n g"
  then show "game_inv n (undo g)" by (rule game_inv_undo)
next
  fix i j
  assume "game_inv n g" "i < n" "j < n"
  then show "gridCell (board g) ! i ! j = 0 \<or> (\<exists>k>0. gridCell (board g) ! i ! j = 2 ^ k)"
    by (rule game_inv_cells)
next
  assume "reachable g"
  then show "game_inv 4 g" by (rule reachable_inv)
next
  fix i j :: nat
  assume "reachable g" "i < 4" "j < 4"
  then show "gridCell (board g) ! i ! j = 0 \<or> (\<exists>k>0. gridCell (board g) ! i ! j = 2 ^ k)"
    using game_inv_cells [OF reachable_inv] by blast
qed

theorem tiles_power_of_two_witness:
  "reachable (app_init 0 (0, False) (5, True)) \<and>
   game_inv 4 (app_init 0 (0, False) (5, True)) \<and>
   game_inv 4 (app_move Key_Left (3, False) (app_init 0 (0, False) (5, True))) \<and>
   game_inv 4 (undo (app_init 0 (0, False) (5, True)))"
proof -
  have r: "reachable (app_init 0 (0, False) (5, True))" by (rule r_init)
  show ?thesis
    using r tiles_power_of_two [of 4 "(0, False)" "(5, True)" 0 2048
        "app_init 0 (0, False) (5, True)" Key_Left "(3, False)"]
    by (simp add: app_init_def)
qed

section \<open>The score never decreases\<close>

text \<open>
  Claim C9. A move request in any direction, through the method of the game or through
  the handler of the application, leaves the score at least as high as before: on every
  square grid whose cells are not negative (the grid of the data model), and so in every
  state the application reaches.
\<close>

theorem move_score_monotone:
  "(wf_board (board g) \<and> grid_all (\<lambda>v. 0 \<le> v) (gridCell (board g)) \<longrightarrow>
      score (board g) \<le> score (board (snd (move dir d g))) \<and>
      score (board g) \<le> score (board (app_move dir d g))) \<and>
   (reachable g \<longrightarrow>
      score (board g) \<le> score (board (snd (move dir d g))) \<and>
      score (board g) \<le> score (board (app_move dir d g)))"
proof (intro conjI impI)
  assume a: "wf_board (board g) \<and> grid_all (\<lambda>v. 0 \<le> v) (gridCell (board g))"
  then show "score (board g) \<le> score (board (snd (move dir d g)))"
    and "score (board g) \<le> score (board (app_move dir d g))"
    by (simp_all add: move_score)
next
  assume "reachable g"
  then have "game_inv 4 g" by (rule reachable_inv)
  then have "wf_board (board g)" "grid_all (\<lambda>v. 0 \<le> v) (gridCell (board g))"
    by (rule game_inv_nonneg)+
  then show "score (board g) \<le> score (board (snd (move dir d g)))"
    and "score (board g) \<le> score (board (app_move dir d g))"
    by (rule move_score)+
qed

theorem move_score_monotone_witness:
  "(wf_board (board (game_of 4 grid_pairs)) \<and>
    grid_all (\<lambda>v. 0 \<le> v) (gridCell (board (game_of 4 grid_pairs))) \<and>
    0 \<le> score (board (snd (move Key_Right (0, False) (game_of 4 grid_pairs))))) \<and>
   (reachable (app_init 0 (0, False) (5, True)) \<and>
    score (board (app_init 0 (0, False) (5, True)))
      \<le> score (board (app_move Key_Down (1, True) (app_init 0 (0, False) (5, True)))))"
proof -
  have wf: "wf_board (board (game_of 4 grid_pairs))" by simp
  have nn: "grid_all (\<lambda>v. 0 \<le> v) (gridCell (board (game_of 4 grid_pairs)))"
    by (simp add: grid_pairs_nonneg)
  have r: "reachable (app_init 0 (0, False) (5, True))" by (rule r_init)
  show ?thesis
    using move_score_monotone [of "game_of 4 grid_pairs" Key_Right "(0, False)"]
      move_score_monotone [of "app_init 0 (0, False) (5, True)" Key_Down "(1, True)"]
      wf nn r
    by simp
qed

section \<open>What undo leaves alone\<close>

text \<open>
  Claim C10. \<^verbatim>\<open>undo\<close> writes the grid, the score and the snapshot only: the flags
  \<^verbatim>\<open>won\<close> and \<^verbatim>\<open>end\<close>, the move counter, the best score, the target, the size of the
  board and its two flags are as before. The handler of the application adds nothing.
\<close>

theorem undo_frame:
  "won (undo g) = won g \<and> end_flag (undo g) = end_flag g \<and>
   move_count (undo g) = move_count g \<and> best_score (undo g) = best_score g \<and>
   target (undo g) = target g \<and> bsize (board (undo g)) = bsize (board g) \<and>
   compress (board (undo g)) = compress (board g) \<and>
   merge (board (undo g)) = merge (board g) \<and> app_undo g = undo g"
  by (simp add: undo_def app_undo_def split: option.split)

end
